theory Spec2Isabelle
  imports Main "HOL-Library.Sublist"
begin

section \<open>Strings\<close>

text \<open>
  A JavaScript string is a sequence of UTF-16 code units. A code unit is modelled by
  its number, a string by the list of its code units, so that \<open>s.length\<close> is
  \<open>length s\<close> and \<open>s[k]\<close> is \<open>s ! k\<close> for \<open>k < length s\<close>.
  \<open>str\<close> turns an ASCII literal into such a string.
\<close>

type_synonym jschar = nat
type_synonym jsstring = "jschar list"

definition str :: "string \<Rightarrow> jsstring" where
  "str s = map of_char s"

section \<open>The diff of two strings (computeDiff, mergeDiff)\<close>

text \<open>A part \<open>{type, value}\<close> of a diff; the fields are \<open>ptype\<close> and \<open>pvalue\<close> here.\<close>

datatype DiffType = Equal | Insert | Delete

record DiffPart =
  ptype :: DiffType
  pvalue :: jsstring

text \<open>
  The table \<open>dp\<close> of \<open>computeDiff\<close>: \<open>m + 1\<close> rows of \<open>n + 1\<close> zeros, then
  filled row by row for \<open>i = 1..m\<close> and \<open>j = 1..n\<close>. Every index the two loops
  read or write is inside the table and inside the two strings.
\<close>

definition dp_init :: "nat \<Rightarrow> nat \<Rightarrow> nat list list" where
  "dp_init m n = replicate (m + 1) (replicate (n + 1) 0)"

definition dp_cell :: "jsstring \<Rightarrow> jsstring \<Rightarrow> nat list list \<Rightarrow> nat \<Rightarrow> nat \<Rightarrow> nat" where
  "dp_cell text1 text2 dp i j =
     (if text1 ! (i - 1) = text2 ! (j - 1) then dp ! (i - 1) ! (j - 1) + 1
      else max (dp ! (i - 1) ! j) (dp ! i ! (j - 1)))"

definition dp_row :: "jsstring \<Rightarrow> jsstring \<Rightarrow> nat \<Rightarrow> nat list list \<Rightarrow> nat list list" where
  "dp_row text1 text2 i dp =
     fold (\<lambda>j d. d[i := (d ! i)[j := dp_cell text1 text2 d i j]]) [1 ..< length text2 + 1] dp"

definition dp_table :: "jsstring \<Rightarrow> jsstring \<Rightarrow> nat list list" where
  "dp_table text1 text2 =
     fold (dp_row text1 text2) [1 ..< length text1 + 1] (dp_init (length text1) (length text2))"

text \<open>
  The reconstruction loop \<open>while (i > 0 || j > 0)\<close>; \<open>diff.unshift\<close> puts the new
  part in front. The last branch is only reached with \<open>i > 0\<close>: when \<open>i = 0\<close> the loop
  condition gives \<open>j > 0\<close> and the second branch is taken.
\<close>

function backtrack ::
  "jsstring \<Rightarrow> jsstring \<Rightarrow> nat list list \<Rightarrow> nat \<Rightarrow> nat \<Rightarrow> DiffPart list \<Rightarrow> DiffPart list" where
  "backtrack text1 text2 dp i j diff =
     (if i > 0 \<or> j > 0 then
        (if i > 0 \<and> j > 0 \<and> text1 ! (i - 1) = text2 ! (j - 1) then
           backtrack text1 text2 dp (i - 1) (j - 1)
             (\<lparr>ptype = Equal, pvalue = [text1 ! (i - 1)]\<rparr> # diff)
         else if j > 0 \<and> (i = 0 \<or> dp ! i ! (j - 1) \<ge> dp ! (i - 1) ! j) then
           backtrack text1 text2 dp i (j - 1)
             (\<lparr>ptype = Insert, pvalue = [text2 ! (j - 1)]\<rparr> # diff)
         else
           backtrack text1 text2 dp (i - 1) j
             (\<lparr>ptype = Delete, pvalue = [text1 ! (i - 1)]\<rparr> # diff))
      else diff)"
  by pat_completeness auto
termination
  by (relation "measure (\<lambda>(text1, text2, dp, i, j, diff). i + j)") auto

declare backtrack.simps [simp del]

text \<open>
  \<open>mergeDiff\<close>: \<open>current\<close> is \<open>null\<close> (\<open>None\<close>) before the first part;
  \<open>merged.push\<close> appends at the end.
\<close>

fun mergeDiff_loop :: "DiffPart list \<Rightarrow> DiffPart list \<Rightarrow> DiffPart option \<Rightarrow> DiffPart list" where
  "mergeDiff_loop [] merged current =
     (case current of None \<Rightarrow> merged | Some c \<Rightarrow> merged @ [c])"
| "mergeDiff_loop (part # rest) merged current =
     (case current of
        None \<Rightarrow> mergeDiff_loop rest merged (Some part)
      | Some c \<Rightarrow>
          if ptype c \<noteq> ptype part then mergeDiff_loop rest (merged @ [c]) (Some part)
          else mergeDiff_loop rest merged (Some (c\<lparr>pvalue := pvalue c @ pvalue part\<rparr>)))"

definition mergeDiff :: "DiffPart list \<Rightarrow> DiffPart list" where
  "mergeDiff diff = mergeDiff_loop diff [] None"

definition computeDiff :: "jsstring \<Rightarrow> jsstring \<Rightarrow> DiffPart list" where
  "computeDiff text1 text2 =
     mergeDiff (backtrack text1 text2 (dp_table text1 text2) (length text1) (length text2) [])"

text \<open>The characters a run list keeps of one side: the values of the runs of the given types.\<close>

definition side :: "DiffType set \<Rightarrow> DiffPart list \<Rightarrow> jsstring" where
  "side ts parts = concat (map pvalue (filter (\<lambda>p. ptype p \<in> ts) parts))"

section \<open>Whitespace\<close>

text \<open>
  The code units that the regular expression class \<open>\s\<close> matches and that
  \<open>String.prototype.trim\<close> removes: the ECMAScript WhiteSpace and LineTerminator
  code points (tab, LF, VT, FF, CR, space, no-break space, U+1680, U+2000 to U+200A,
  U+2028, U+2029, U+202F, U+205F, U+3000, U+FEFF).
\<close>

definition is_space :: "jschar \<Rightarrow> bool" where
  "is_space c =
     (c \<in> {9, 10, 11, 12, 13, 32, 160, 5760, 8232, 8233, 8239, 8287, 12288, 65279}
      \<or> (8192 \<le> c \<and> c \<le> 8202))"

text \<open>\<open>s.replace(/\s+/g, '')\<close>: every whitespace code unit is removed.\<close>

definition strip :: "jsstring \<Rightarrow> jsstring" where
  "strip s = filter (\<lambda>c. \<not> is_space c) s"

text \<open>\<open>s.trim()\<close>: whitespace is removed at both ends.\<close>

definition trim :: "jsstring \<Rightarrow> jsstring" where
  "trim s = rev (dropWhile is_space (rev (dropWhile is_space s)))"

text \<open>\<open>s.trimEnd()\<close>, which the code never calls: whitespace is removed at the end only.\<close>

definition trimEnd :: "jsstring \<Rightarrow> jsstring" where
  "trimEnd s = rev (dropWhile is_space (rev s))"

text \<open>
  \<open>text.split('\n')\<close>: the pieces between the line feeds (code unit 10); the result
  is never empty, so the last case of the \<open>case\<close> is not reached.
\<close>

fun split_newline :: "jsstring \<Rightarrow> jsstring list" where
  "split_newline [] = [[]]"
| "split_newline (c # cs) =
     (if c = 10 then [] # split_newline cs
      else (case split_newline cs of l # ls \<Rightarrow> (c # l) # ls | [] \<Rightarrow> [[c]]))"

text \<open>\<open>xs.slice(a, b)\<close> for \<open>0 \<le> a\<close>; both ends are clamped to the length.\<close>

definition slice :: "'a list \<Rightarrow> nat \<Rightarrow> nat \<Rightarrow> 'a list" where
  "slice xs a b = take (b - a) (drop a xs)"

text \<open>\<open>xs.join('\n')\<close>.\<close>

fun join_newline :: "jsstring list \<Rightarrow> jsstring" where
  "join_newline [] = []"
| "join_newline [x] = x"
| "join_newline (x # y # ys) = x @ 10 # join_newline (y # ys)"

section \<open>Positions, ranges and sentences\<close>

text \<open>
  The types of the source. Line and column indices are zero-based and never negative, so
  they are natural numbers. The fields \<open>range\<close> and \<open>text\<close> of a sentence are
  \<open>srange\<close> and \<open>stext\<close> here, the field \<open>range\<close> of a correction result is
  \<open>crange\<close>.
\<close>

record Position =
  lineIndex :: nat
  columnIndex :: nat

record Range =
  startsAt :: Position
  endsAt :: Position

record DocumentSentence =
  srange :: Range
  stext :: jsstring

datatype MatchResult = Success Position Position | Failure

record CorrectionResult =
  crange :: Range
  errors :: "jsstring list"
  originalSentence :: jsstring
  correctedSentence :: jsstring

text \<open>Document order on positions.\<close>

definition pos_le :: "Position \<Rightarrow> Position \<Rightarrow> bool" where
  "pos_le p q =
     (lineIndex p < lineIndex q \<or> (lineIndex p = lineIndex q \<and> columnIndex p \<le> columnIndex q))"

definition pos_less :: "Position \<Rightarrow> Position \<Rightarrow> bool" where
  "pos_less p q =
     (lineIndex p < lineIndex q \<or> (lineIndex p = lineIndex q \<and> columnIndex p < columnIndex q))"

section \<open>PositionMapper (findEndPosition)\<close>

text \<open>
  The two nested \<open>while\<close> loops of \<open>findEndPosition\<close>, with the loop variables as
  arguments. \<open>cleanSentence[matchCount]\<close> is \<open>undefined\<close> when \<open>matchCount\<close> is not
  below the length, and no character is equal to it. \<open>matchStartPosition\<close> is
  \<open>null\<close> (\<open>None\<close>) until a match begins; the code returns
  \<open>matchStartPosition!\<close>, which \<open>the\<close> reads. It is never \<open>null\<close> there: by
  the invariant \<open>match_inv\<close> below a candidate start is recorded whenever
  \<open>matchCount\<close> is positive.
\<close>

function findEndPosition_loop ::
  "jsstring list \<Rightarrow> jsstring \<Rightarrow> nat \<Rightarrow> nat \<Rightarrow> nat \<Rightarrow> Position option \<Rightarrow> MatchResult" where
  "findEndPosition_loop lines cleanSentence currentLine currentColumn matchCount matchStartPosition =
     (if currentLine < length lines then
        (if currentColumn < length (lines ! currentLine) then
           (let currentChar = lines ! currentLine ! currentColumn in
            if is_space currentChar then
              findEndPosition_loop lines cleanSentence currentLine (currentColumn + 1)
                matchCount matchStartPosition
            else if matchCount < length cleanSentence \<and> currentChar = cleanSentence ! matchCount then
              (let start = (if matchCount = 0
                            then Some \<lparr>lineIndex = currentLine, columnIndex = currentColumn\<rparr>
                            else matchStartPosition)
               in if matchCount + 1 = length cleanSentence then
                    Success (the start) \<lparr>lineIndex = currentLine, columnIndex = currentColumn + 1\<rparr>
                  else
                    findEndPosition_loop lines cleanSentence currentLine (currentColumn + 1)
                      (matchCount + 1) start)
            else
              findEndPosition_loop lines cleanSentence currentLine (currentColumn + 1) 0 None)
         else
           findEndPosition_loop lines cleanSentence (currentLine + 1) 0 matchCount matchStartPosition)
      else Failure)"
  by pat_completeness auto
termination
  by (relation "measures
        [\<lambda>(lines, cleanSentence, currentLine, currentColumn, matchCount, matchStartPosition).
            length lines - currentLine,
         \<lambda>(lines, cleanSentence, currentLine, currentColumn, matchCount, matchStartPosition).
            length (lines ! currentLine) - currentColumn]") auto

declare findEndPosition_loop.simps [simp del]

definition findEndPosition :: "jsstring \<Rightarrow> jsstring \<Rightarrow> Position \<Rightarrow> MatchResult" where
  "findEndPosition sentence originalText startPosition =
     findEndPosition_loop (split_newline originalText) (strip sentence)
       (lineIndex startPosition) (columnIndex startPosition) 0 None"

text \<open>\<open>calculateRanges\<close>: \<open>result.push\<close> appends; a sentence that is not found is skipped.\<close>

fun calculateRanges_loop ::
  "jsstring list \<Rightarrow> jsstring \<Rightarrow> Position \<Rightarrow> DocumentSentence list \<Rightarrow> DocumentSentence list" where
  "calculateRanges_loop [] originalText currentPosition result = result"
| "calculateRanges_loop (sentence # rest) originalText currentPosition result =
     (case findEndPosition sentence originalText currentPosition of
        Success startPosition endPosition \<Rightarrow>
          calculateRanges_loop rest originalText
            \<lparr>lineIndex = lineIndex endPosition, columnIndex = columnIndex endPosition\<rparr>
            (result @ [\<lparr>srange = \<lparr>startsAt = startPosition, endsAt = endPosition\<rparr>,
                        stext = sentence\<rparr>])
      | Failure \<Rightarrow> calculateRanges_loop rest originalText currentPosition result)"

definition calculateRanges :: "jsstring list \<Rightarrow> jsstring \<Rightarrow> nat \<Rightarrow> DocumentSentence list" where
  "calculateRanges sentences originalText startLine =
     calculateRanges_loop sentences originalText \<lparr>lineIndex = startLine, columnIndex = 0\<rparr> []"



definition lines_range :: "jsstring list \<Rightarrow> Position \<Rightarrow> Position \<Rightarrow> jsstring" where
  "lines_range lines s e =
     (if lineIndex s = lineIndex e then
        take (columnIndex e - columnIndex s) (drop (columnIndex s) (lines ! lineIndex s))
      else
        drop (columnIndex s) (lines ! lineIndex s)
          @ concat (map (\<lambda>x. 10 # x)
              (take (lineIndex e - lineIndex s - 1) (drop (lineIndex s + 1) lines)))
          @ 10 # take (columnIndex e) (lines ! lineIndex e))"

definition range_text :: "jsstring \<Rightarrow> Position \<Rightarrow> Position \<Rightarrow> jsstring" where
  "range_text originalText s e = lines_range (split_newline originalText) s e"


text \<open>
  The invariant of the loops of \<open>findEndPosition\<close>, for a search that began at \<open>p0\<close>:
  while a match is under way (\<open>matchCount > 0\<close>), the candidate start is recorded and is
  between \<open>p0\<close> and the current position, and the document text from it to the current
  position is, whitespace removed, the part of the sentence matched so far.
\<close>

definition match_inv ::
  "jsstring list \<Rightarrow> jsstring \<Rightarrow> Position \<Rightarrow> nat \<Rightarrow> nat \<Rightarrow> nat \<Rightarrow> Position option \<Rightarrow> bool" where
  "match_inv lines cleanSentence p0 l c matchCount matchStartPosition =
     (matchCount = 0 \<or>
      (matchCount < length cleanSentence \<and>
       (\<exists>s0. matchStartPosition = Some s0 \<and> pos_le p0 s0 \<and>
             pos_le s0 \<lparr>lineIndex = l, columnIndex = c\<rparr> \<and>
             strip (lines_range lines s0 \<lparr>lineIndex = l, columnIndex = c\<rparr>)
               = take matchCount cleanSentence)))"

section \<open>ParagraphSplitter (splitIntoParagraphs)\<close>

text \<open>A paragraph \<open>{text, startLine}\<close>; the fields are \<open>ptext\<close> and \<open>pstartLine\<close> here.\<close>

record Paragraph =
  ptext :: jsstring
  pstartLine :: nat

text \<open>\<open>line.startsWith('#')\<close>; 35 is the code unit of \<open>#\<close>.\<close>

definition startsWith_hash :: "jsstring \<Rightarrow> bool" where
  "startsWith_hash line = (case line of [] \<Rightarrow> False | c # cs \<Rightarrow> c = 35)"

text \<open>
  The loop over \<open>lines[i]\<close>; the arguments are the lines still to read, the index \<open>i\<close>
  and the three variables \<open>paragraphs\<close>, \<open>currentParagraph\<close>, \<open>startLine\<close>.
  A string is truthy when it is not empty.
\<close>

fun splitIntoParagraphs_loop ::
  "jsstring list \<Rightarrow> nat \<Rightarrow> Paragraph list \<Rightarrow> jsstring \<Rightarrow> nat \<Rightarrow> Paragraph list" where
  "splitIntoParagraphs_loop [] i paragraphs currentParagraph startLine =
     (if currentParagraph \<noteq> []
      then paragraphs @ [\<lparr>ptext = trim currentParagraph, pstartLine = startLine\<rparr>]
      else paragraphs)"
| "splitIntoParagraphs_loop (line # rest) i paragraphs currentParagraph startLine =
     (if startsWith_hash line \<and> currentParagraph \<noteq> [] then
        splitIntoParagraphs_loop rest (i + 1)
          (paragraphs @ [\<lparr>ptext = trim currentParagraph, pstartLine = startLine\<rparr>])
          ([] @ line @ [10]) i
      else
        splitIntoParagraphs_loop rest (i + 1) paragraphs (currentParagraph @ line @ [10]) startLine)"

definition splitIntoParagraphs :: "jsstring \<Rightarrow> Paragraph list" where
  "splitIntoParagraphs text = splitIntoParagraphs_loop (split_newline text) 0 [] [] 0"

text \<open>
  Paragraphs, as properties speak of them. \<open>buffer_of\<close> is what \<open>currentParagraph\<close>
  accumulates from a block of lines: each line followed by a line feed.
  \<open>paragraphs_of start blocks\<close> are the paragraphs of consecutive blocks of lines, the
  first block beginning at line \<open>start\<close>: the text of a paragraph is the trimmed buffer
  of its block, its start line the index of the first line of its block.
\<close>

definition buffer_of :: "jsstring list \<Rightarrow> jsstring" where
  "buffer_of block = concat (map (\<lambda>line. line @ [10]) block)"

fun paragraphs_of :: "nat \<Rightarrow> jsstring list list \<Rightarrow> Paragraph list" where
  "paragraphs_of start [] = []"
| "paragraphs_of start (block # blocks) =
     \<lparr>ptext = trim (buffer_of block), pstartLine = start\<rparr>
       # paragraphs_of (start + length block) blocks"

text \<open>
  Blocks of lines cut at headings: no block is empty, only the first line of a block may
  be a heading, and every block but the first begins with one.
\<close>

definition heading_blocks :: "jsstring list list \<Rightarrow> bool" where
  "heading_blocks blocks =
     ((\<forall>b\<in>set blocks. b \<noteq> [] \<and> (\<forall>l\<in>set (tl b). \<not> startsWith_hash l)) \<and>
      (\<forall>b\<in>set (tl blocks). startsWith_hash (hd b)))"

section \<open>External services, promises and batches\<close>

text \<open>
  What a call of the chat completion service gives, as the code tells the cases apart:
  the call rejects (or the response has no choice), the message has no content, the
  content is not JSON (\<open>JSON.parse\<close> throws), or the content is JSON and
  \<open>JSON.parse\<close> returns a value, of the type \<open>'a\<close>.
\<close>

datatype 'a reply = CallFails | NoContent | Unparseable | Json 'a

text \<open>A promise that has settled: fulfilled with a value, or rejected.\<close>

datatype 'a settled = Fulfilled 'a | Rejected

text \<open>
  \<open>await Promise.all(promises)\<close>. The promises of a batch settle in some order, given as
  the list \<open>order\<close> of their indices in the batch. A fulfilled promise stores its value
  in the slot of its own index; a rejected one rejects the whole. When the order is
  through, \<open>Promise.all\<close> is fulfilled with the values in the order of the promises if
  every slot is filled; otherwise some promise never settles and the \<open>await\<close> does not
  return (\<open>None\<close>).
\<close>

fun promise_all_loop :: "nat list \<Rightarrow> 'a settled list \<Rightarrow> 'a option list \<Rightarrow> 'a list settled option" where
  "promise_all_loop [] promises slots =
     (case those slots of None \<Rightarrow> None | Some values \<Rightarrow> Some (Fulfilled values))"
| "promise_all_loop (k # order) promises slots =
     (if k < length promises then
        (case promises ! k of
           Rejected \<Rightarrow> Some Rejected
         | Fulfilled v \<Rightarrow> promise_all_loop order promises (slots[k := Some v]))
      else promise_all_loop order promises slots)"

definition promise_all :: "nat list \<Rightarrow> 'a settled list \<Rightarrow> 'a list settled option" where
  "promise_all order promises =
     promise_all_loop order promises (replicate (length promises) None)"

text \<open>
  The loop \<open>for (let i = 0; i < tasks.length; i += this.maxConcurrency)\<close>, which
  \<open>processParagraphs\<close> and \<open>correctTextStream\<close> both run: the batch is
  \<open>tasks.slice(i, i + maxConcurrency)\<close>, every task of the batch is started, the loop
  awaits \<open>Promise.all\<close> and appends the results of the batch (the first function by
  \<open>results.push\<close>, the second by \<open>yield\<close>). \<open>sched i\<close> is the order in which the
  promises of the batch that starts at \<open>i\<close> settle. \<open>maxConcurrency\<close> is the field
  of \<open>TextProcessor\<close>; it is 10 in every run of \<open>proofread\<close>, which takes the
  constructor's default.

  The loop ends in one of two ways: it runs through (\<open>Completed\<close>), or an \<open>await\<close>
  throws because a task of the batch rejected (\<open>Aborted\<close>); in both cases the list is
  what was appended before. The result is \<open>None\<close> when the loop does not return.
\<close>

datatype 'r run = Completed "'r list" | Aborted "'r list"

fun yielded :: "'r run \<Rightarrow> 'r list" where
  "yielded (Completed results) = results"
| "yielded (Aborted results) = results"

partial_function (option) run_batches ::
  "nat \<Rightarrow> (nat \<Rightarrow> nat list) \<Rightarrow> ('t \<Rightarrow> 'r settled) \<Rightarrow> 't list \<Rightarrow> nat \<Rightarrow> 'r list
     \<Rightarrow> 'r run option" where
  "run_batches maxConcurrency sched work tasks i results =
     (if i < length tasks then
        (case promise_all (sched i) (map work (slice tasks i (i + maxConcurrency))) of
           None \<Rightarrow> None
         | Some Rejected \<Rightarrow> Some (Aborted results)
         | Some (Fulfilled batchResults) \<Rightarrow>
             run_batches maxConcurrency sched work tasks (i + maxConcurrency)
               (results @ batchResults))
      else Some (Completed results))"

text \<open>Every promise of every batch settles: each index of a batch is in its order.\<close>

definition all_settle :: "nat \<Rightarrow> (nat \<Rightarrow> nat list) \<Rightarrow> nat \<Rightarrow> bool" where
  "all_settle maxConcurrency sched n =
     list_all (\<lambda>i. list_all (\<lambda>k. k \<in> set (sched i)) [0 ..< min maxConcurrency (n - i)]) [0 ..< n]"

section \<open>SentenceSegmenter (processParagraphs)\<close>

text \<open>
  \<open>splitIntoSentences\<close>: the reply of the segmentation service to the call for a
  paragraph. A missing content is read as \<open>'{}'\<close> and a missing \<open>sentences\<close> field
  (\<open>Json None\<close>) as \<open>[]\<close>; a failing call and content that is not JSON reject.
  The parsed value is taken to be an object whose \<open>sentences\<close>, when there, is a list
  of strings, as the declared return type has it.
\<close>

definition splitIntoSentences :: "jsstring list option reply \<Rightarrow> jsstring list settled" where
  "splitIntoSentences r =
     (case r of
        CallFails \<Rightarrow> Rejected
      | Unparseable \<Rightarrow> Rejected
      | NoContent \<Rightarrow> Fulfilled []
      | Json None \<Rightarrow> Fulfilled []
      | Json (Some sentences) \<Rightarrow> Fulfilled sentences)"

text \<open>
  The task of one paragraph: \<open>segmenter index text\<close> is the reply of the service to the
  call made for paragraph number \<open>index\<close> with the paragraph's text.
\<close>

definition segmentTask ::
  "(nat \<Rightarrow> jsstring \<Rightarrow> jsstring list option reply) \<Rightarrow> jsstring \<Rightarrow> nat \<times> Paragraph
     \<Rightarrow> (nat \<times> DocumentSentence list) settled" where
  "segmentTask segmenter text task =
     (case splitIntoSentences (segmenter (fst task) (ptext (snd task))) of
        Rejected \<Rightarrow> Rejected
      | Fulfilled sentences \<Rightarrow>
          Fulfilled (fst task, calculateRanges sentences text (pstartLine (snd task) + 1)))"

text \<open>
  \<open>processParagraphs\<close>: the tasks pair each paragraph with its index; the results are
  sorted by index (a stable sort) and their sentences are concatenated. When a task
  rejects, the function rejects and the results gathered before are lost.
\<close>

definition processParagraphs ::
  "nat \<Rightarrow> (nat \<Rightarrow> nat list) \<Rightarrow> (nat \<Rightarrow> jsstring \<Rightarrow> jsstring list option reply) \<Rightarrow> jsstring
     \<Rightarrow> DocumentSentence list settled option" where
  "processParagraphs maxConcurrency sched segmenter text =
     (case run_batches maxConcurrency sched (segmentTask segmenter text)
             (enumerate 0 (splitIntoParagraphs text)) 0 [] of
        None \<Rightarrow> None
      | Some (Aborted results) \<Rightarrow> Some Rejected
      | Some (Completed results) \<Rightarrow>
          Some (Fulfilled (concat (map snd (sort_key fst results)))))"

section \<open>CorrectionStreamer (correctTextStream)\<close>

text \<open>
  The response \<open>{error, correctedSentence}\<close> of the correction service; its second
  field is \<open>response_correctedSentence\<close> here.
\<close>

record ApiResponse =
  error :: "jsstring list"
  response_correctedSentence :: jsstring

text \<open>
  The prompt: the fixed instruction text of \<open>createCorrectionPrompt\<close> around the two
  strings it is built from.
\<close>

record Prompt =
  prompt_target :: jsstring
  prompt_context :: jsstring

definition createCorrectionPrompt :: "jsstring \<Rightarrow> jsstring \<Rightarrow> Prompt" where
  "createCorrectionPrompt target ctx = \<lparr>prompt_target = target, prompt_context = ctx\<rparr>"

text \<open>\<open>getContext\<close>; \<open>Math.max(0, currentIndex - 2)\<close> is the subtraction of naturals.\<close>

definition getContext :: "DocumentSentence list \<Rightarrow> nat \<Rightarrow> jsstring" where
  "getContext sentences currentIndex =
     join_newline (map stext
       (slice sentences (currentIndex - 2) (min (length sentences) (currentIndex + 3))))"

text \<open>
  The value \<open>JSON.parse(content)\<close> returns in \<open>callOpenAIAPI\<close>, told apart by what
  \<open>correctTextStream\<close> reads of it in \<open>response.error.length > 0\<close>:
  \<^item> \<open>WellTyped\<close>: an object of the declared type, \<open>error\<close> a list of strings and
    \<open>correctedSentence\<close> a string;
  \<^item> \<open>NoError\<close>: \<open>null\<close>, or a value whose \<open>error\<close> is \<open>undefined\<close> or \<open>null\<close>,
    such as \<open>{}\<close>: reading \<open>response.error.length\<close> throws a \<open>TypeError\<close>;
  \<^item> \<open>NoLength\<close>: a value whose \<open>error\<close> is there, is not a list and has no
    positive length (a number, a boolean, an object with no positive \<open>length\<close>, the
    empty string): the comparison \<open>response.error.length > 0\<close> is false.

  A value whose \<open>error\<close> has a positive length and is not a list of strings, or whose
  \<open>correctedSentence\<close> is not a string while \<open>error\<close> is a non-empty list, is copied
  into the record; that record is not of the type \<open>CorrectionResult\<close>, and such values
  are not represented.
\<close>

datatype ParsedResponse = WellTyped ApiResponse | NoError | NoLength

text \<open>
  \<open>callOpenAIAPI\<close>, given the reply of the correction service to the prompt: it returns
  what \<open>JSON.parse\<close> returns, of whatever shape; a failing call, a missing content and
  content that is not JSON are caught and give the fallback response.
\<close>

definition callOpenAIAPI :: "ParsedResponse reply \<Rightarrow> ParsedResponse" where
  "callOpenAIAPI r =
     (case r of
        Json response \<Rightarrow> response
      | _ \<Rightarrow> WellTyped \<lparr>error = [], response_correctedSentence = []\<rparr>)"

text \<open>
  The task of one sentence in \<open>correctTextStream\<close>: \<open>corrector index prompt\<close> is the
  reply of the service to the call made for sentence number \<open>index\<close>. The condition
  \<open>response.error.length > 0\<close> is outside the \<open>try\<close> of \<open>callOpenAIAPI\<close>: when
  reading it throws, the task rejects.
\<close>

definition correctTask ::
  "(nat \<Rightarrow> Prompt \<Rightarrow> ParsedResponse reply) \<Rightarrow> DocumentSentence list \<Rightarrow> nat \<times> DocumentSentence
     \<Rightarrow> CorrectionResult settled" where
  "correctTask corrector sentences task =
     (let ctx = getContext sentences (fst task);
          prompt = createCorrectionPrompt (stext (snd task)) ctx
      in case callOpenAIAPI (corrector (fst task) prompt) of
           NoError \<Rightarrow> Rejected
         | NoLength \<Rightarrow>
             Fulfilled \<lparr>crange = srange (snd task), errors = [],
                        originalSentence = stext (snd task),
                        correctedSentence = stext (snd task)\<rparr>
         | WellTyped response \<Rightarrow>
             Fulfilled
               (if length (error response) > 0 \<and>
                   response_correctedSentence response \<noteq> stext (snd task)
                then \<lparr>crange = srange (snd task), errors = error response,
                      originalSentence = stext (snd task),
                      correctedSentence = response_correctedSentence response\<rparr>
                else \<lparr>crange = srange (snd task), errors = [],
                      originalSentence = stext (snd task),
                      correctedSentence = stext (snd task)\<rparr>))"

text \<open>
  \<open>correctTextStream\<close>: how the generator ends and the records it has yielded, in the
  order it yields them.
\<close>

definition correctTextStream ::
  "nat \<Rightarrow> (nat \<Rightarrow> nat list) \<Rightarrow> (nat \<Rightarrow> Prompt \<Rightarrow> ParsedResponse reply) \<Rightarrow> DocumentSentence list
     \<Rightarrow> CorrectionResult run option" where
  "correctTextStream maxConcurrency sched corrector sentences =
     run_batches maxConcurrency sched (correctTask corrector sentences)
       (enumerate 0 sentences) 0 []"

text \<open>
  The response \<open>callOpenAIAPI\<close> returns for sentence number \<open>i\<close>, and the condition
  that no response of the run is one on which the task throws.
\<close>

definition response_of ::
  "(nat \<Rightarrow> Prompt \<Rightarrow> ParsedResponse reply) \<Rightarrow> DocumentSentence list \<Rightarrow> nat \<Rightarrow> ParsedResponse" where
  "response_of corrector sentences i =
     callOpenAIAPI (corrector i
       (createCorrectionPrompt (stext (sentences ! i)) (getContext sentences i)))"

definition responses_readable ::
  "(nat \<Rightarrow> Prompt \<Rightarrow> ParsedResponse reply) \<Rightarrow> DocumentSentence list \<Rightarrow> bool" where
  "responses_readable corrector sentences =
     list_all (\<lambda>i. response_of corrector sentences i \<noteq> NoError) [0 ..< length sentences]"

section \<open>Sample inputs\<close>

text \<open>
  The document and the reply of the segmentation service of the concrete scenario: a
  heading line, then a line of two sentences separated by two spaces.
\<close>

definition scenario_text :: jsstring where
  "scenario_text = str ''# Title'' @ [10] @ str ''This is a test.  It has two sentences.''"

definition scenario_segmenter :: "nat \<Rightarrow> jsstring \<Rightarrow> jsstring list option reply" where
  "scenario_segmenter index paragraphText =
     Json (Some [str ''This is a test.'', str ''It has two sentences.''])"

text \<open>
  Three positioned sentences and a correction service that corrects the first, fails on
  the second, and for the third reports an error but returns the sentence unchanged.
\<close>

definition sample_sentences :: "DocumentSentence list" where
  "sample_sentences =
     [\<lparr>srange = \<lparr>startsAt = \<lparr>lineIndex = 0, columnIndex = 0\<rparr>,
                 endsAt = \<lparr>lineIndex = 0, columnIndex = 2\<rparr>\<rparr>, stext = str ''ab''\<rparr>,
      \<lparr>srange = \<lparr>startsAt = \<lparr>lineIndex = 0, columnIndex = 3\<rparr>,
                 endsAt = \<lparr>lineIndex = 0, columnIndex = 5\<rparr>\<rparr>, stext = str ''cd''\<rparr>,
      \<lparr>srange = \<lparr>startsAt = \<lparr>lineIndex = 1, columnIndex = 0\<rparr>,
                 endsAt = \<lparr>lineIndex = 1, columnIndex = 2\<rparr>\<rparr>, stext = str ''ef''\<rparr>]"

definition sample_corrector :: "nat \<Rightarrow> Prompt \<Rightarrow> ParsedResponse reply" where
  "sample_corrector index prompt =
     (if index = 0
      then Json (WellTyped \<lparr>error = [str ''typo''], response_correctedSentence = str ''abc''\<rparr>)
      else if index = 1 then CallFails
      else Json (WellTyped
             \<lparr>error = [str ''style''], response_correctedSentence = prompt_target prompt\<rparr>))"

text \<open>
  Two services that reply \<open>{}\<close> to one call. The first does so for the third
  sentence, and each of its other calls resolves with a well-typed response that reports
  no error. The second does so for the first sentence, and its call for the second
  sentence fails.
\<close>

definition empty_object_corrector :: "nat \<Rightarrow> Prompt \<Rightarrow> ParsedResponse reply" where
  "empty_object_corrector index prompt =
     (if index = 2 then Json NoError
      else Json (WellTyped \<lparr>error = [], response_correctedSentence = prompt_target prompt\<rparr>))"


text \<open>In every batch the later promise settles first.\<close>

definition sample_sched :: "nat \<Rightarrow> nat list" where
  "sample_sched i = [1, 0]"

section \<open>Properties of the diff\<close>

lemma side_Nil: "side ts [] = []"
  by (simp add: side_def)

lemma side_Cons: "side ts (p # ps) = (if ptype p \<in> ts then pvalue p else []) @ side ts ps"
  by (simp add: side_def)

lemma side_append: "side ts (ps @ qs) = side ts ps @ side ts qs"
  by (simp add: side_def)

lemma side_mergeDiff_loop:
  "side ts (mergeDiff_loop ds merged current) =
     side ts merged @ side ts (case current of None \<Rightarrow> [] | Some c \<Rightarrow> [c]) @ side ts ds"
proof (induction ds arbitrary: merged current)
  case Nil
  then show ?case
    by (simp add: side_append side_Nil split: option.splits)
next
  case (Cons part rest)
  then show ?case
    by (simp add: side_append side_Cons side_Nil split: option.splits)
qed

lemma side_mergeDiff: "side ts (mergeDiff ds) = side ts ds"
  by (simp add: mergeDiff_def side_mergeDiff_loop side_Nil)

lemma types_mergeDiff_loop:
  "distinct_adj (map ptype (merged @ (case current of None \<Rightarrow> [] | Some c \<Rightarrow> [c]))) \<Longrightarrow>
   (current = None \<longrightarrow> merged = []) \<Longrightarrow>
   distinct_adj (map ptype (mergeDiff_loop ds merged current))"
proof (induction ds arbitrary: merged current)
  case Nil
  then show ?case
    by (simp split: option.splits)
next
  case (Cons part rest)
  show ?case
  proof (cases current)
    case None
    with Cons.prems have "distinct_adj (map ptype (merged @ [part]))"
      by simp
    hence "distinct_adj (map ptype (mergeDiff_loop rest merged (Some part)))"
      by (intro Cons.IH) simp_all
    with None show ?thesis by simp
  next
    case (Some c)
    show ?thesis
    proof (cases "ptype c = ptype part")
      case True
      from Cons.prems Some
      have "distinct_adj (map ptype (merged @ [c\<lparr>pvalue := pvalue c @ pvalue part\<rparr>]))"
        by simp
      hence "distinct_adj (map ptype
               (mergeDiff_loop rest merged (Some (c\<lparr>pvalue := pvalue c @ pvalue part\<rparr>))))"
        by (intro Cons.IH) simp_all
      with Some True show ?thesis by simp
    next
      case False
      from Cons.prems Some False
      have "distinct_adj (map ptype ((merged @ [c]) @ [part]))"
        by (simp add: distinct_adj_append_iff)
      hence "distinct_adj (map ptype (mergeDiff_loop rest (merged @ [c]) (Some part)))"
        by (intro Cons.IH) simp_all
      with Some False show ?thesis by simp
    qed
  qed
qed

lemma types_mergeDiff: "distinct_adj (map ptype (mergeDiff ds))"
  unfolding mergeDiff_def by (rule types_mergeDiff_loop) simp_all

lemma backtrack_stop:
  "\<not> (i > 0 \<or> j > 0) \<Longrightarrow> backtrack text1 text2 dp i j diff = diff"
  by (subst backtrack.simps) simp

lemma backtrack_equal:
  "i > 0 \<and> j > 0 \<and> text1 ! (i - 1) = text2 ! (j - 1) \<Longrightarrow>
   backtrack text1 text2 dp i j diff =
     backtrack text1 text2 dp (i - 1) (j - 1) (\<lparr>ptype = Equal, pvalue = [text1 ! (i - 1)]\<rparr> # diff)"
  by (subst backtrack.simps) simp

lemma backtrack_insert:
  "\<not> (i > 0 \<and> j > 0 \<and> text1 ! (i - 1) = text2 ! (j - 1)) \<Longrightarrow>
   j > 0 \<and> (i = 0 \<or> dp ! i ! (j - 1) \<ge> dp ! (i - 1) ! j) \<Longrightarrow>
   backtrack text1 text2 dp i j diff =
     backtrack text1 text2 dp i (j - 1) (\<lparr>ptype = Insert, pvalue = [text2 ! (j - 1)]\<rparr> # diff)"
  by (subst backtrack.simps) auto

lemma backtrack_delete:
  "i > 0 \<or> j > 0 \<Longrightarrow>
   \<not> (i > 0 \<and> j > 0 \<and> text1 ! (i - 1) = text2 ! (j - 1)) \<Longrightarrow>
   \<not> (j > 0 \<and> (i = 0 \<or> dp ! i ! (j - 1) \<ge> dp ! (i - 1) ! j)) \<Longrightarrow>
   backtrack text1 text2 dp i j diff =
     backtrack text1 text2 dp (i - 1) j (\<lparr>ptype = Delete, pvalue = [text1 ! (i - 1)]\<rparr> # diff)"
  by (subst backtrack.simps) auto

lemma take_pred_snoc:
  "0 < i \<Longrightarrow> i \<le> length xs \<Longrightarrow> take i xs = take (i - 1) xs @ [xs ! (i - 1)]"
  by (cases i) (simp_all add: take_Suc_conv_app_nth)

lemma side_backtrack_text1:
  "i \<le> length text1 \<Longrightarrow>
   side {Equal, Delete} (backtrack text1 text2 dp i j diff) =
     take i text1 @ side {Equal, Delete} diff"
proof (induction text1 text2 dp i j diff rule: backtrack.induct)
  case (1 text1 text2 dp i j diff)
  show ?case
  proof (cases "i > 0 \<or> j > 0")
    case False
    then show ?thesis by (simp add: backtrack_stop)
  next
    case run: True
    show ?thesis
    proof (cases "i > 0 \<and> j > 0 \<and> text1 ! (i - 1) = text2 ! (j - 1)")
      case True
      from True "1.prems" have "take i text1 = take (i - 1) text1 @ [text1 ! (i - 1)]"
        by (intro take_pred_snoc) simp_all
      then show ?thesis
        using "1.IH"(1) [OF run True] "1.prems" by (simp add: backtrack_equal [OF True] side_Cons)
    next
      case noteq: False
      show ?thesis
      proof (cases "j > 0 \<and> (i = 0 \<or> dp ! i ! (j - 1) \<ge> dp ! (i - 1) ! j)")
        case True
        show ?thesis
          using "1.IH"(2) [OF run noteq True] "1.prems"
          by (simp add: backtrack_insert [OF noteq True] side_Cons)
      next
        case False
        with run have pos: "i > 0" by auto
        from pos "1.prems" have "take i text1 = take (i - 1) text1 @ [text1 ! (i - 1)]"
          by (intro take_pred_snoc) simp_all
        then show ?thesis
          using "1.IH"(3) [OF run noteq False] "1.prems"
          by (simp add: backtrack_delete [OF run noteq False] side_Cons)
      qed
    qed
  qed
qed

lemma side_backtrack_text2:
  "j \<le> length text2 \<Longrightarrow>
   side {Equal, Insert} (backtrack text1 text2 dp i j diff) =
     take j text2 @ side {Equal, Insert} diff"
proof (induction text1 text2 dp i j diff rule: backtrack.induct)
  case (1 text1 text2 dp i j diff)
  show ?case
  proof (cases "i > 0 \<or> j > 0")
    case False
    then show ?thesis by (simp add: backtrack_stop)
  next
    case run: True
    show ?thesis
    proof (cases "i > 0 \<and> j > 0 \<and> text1 ! (i - 1) = text2 ! (j - 1)")
      case True
      from True "1.prems" have "take j text2 = take (j - 1) text2 @ [text2 ! (j - 1)]"
        by (intro take_pred_snoc) simp_all
      moreover from True have "text1 ! (i - 1) = text2 ! (j - 1)"
        by simp
      ultimately show ?thesis
        using "1.IH"(1) [OF run True] "1.prems" by (simp add: backtrack_equal [OF True] side_Cons)
    next
      case noteq: False
      show ?thesis
      proof (cases "j > 0 \<and> (i = 0 \<or> dp ! i ! (j - 1) \<ge> dp ! (i - 1) ! j)")
        case True
        from True "1.prems" have "take j text2 = take (j - 1) text2 @ [text2 ! (j - 1)]"
          by (intro take_pred_snoc) simp_all
        then show ?thesis
          using "1.IH"(2) [OF run noteq True] "1.prems"
          by (simp add: backtrack_insert [OF noteq True] side_Cons)
      next
        case False
        show ?thesis
          using "1.IH"(3) [OF run noteq False] "1.prems"
          by (simp add: backtrack_delete [OF run noteq False] side_Cons)
      qed
    qed
  qed
qed

text \<open>
  C8: \<open>computeDiff("cat", "cart")\<close> is the run list
  \<open>[{equal, "ca"}, {insert, "r"}, {equal, "t"}]\<close>.
\<close>

theorem computeDiff_cat_cart:
  "computeDiff (str ''cat'') (str ''cart'') =
     [\<lparr>ptype = Equal, pvalue = str ''ca''\<rparr>,
      \<lparr>ptype = Insert, pvalue = str ''r''\<rparr>,
      \<lparr>ptype = Equal, pvalue = str ''t''\<rparr>]"
  by code_simp

text \<open>
  C10: the run list of \<open>computeDiff text1 text2\<close> gives back both inputs: the values of
  its equal and delete runs, in order, concatenate to \<open>text1\<close>, those of its equal and
  insert runs to \<open>text2\<close>; and no two adjacent runs have the same type.
\<close>

theorem computeDiff_roundtrip:
  "side {Equal, Delete} (computeDiff text1 text2) = text1 \<and>
   side {Equal, Insert} (computeDiff text1 text2) = text2 \<and>
   distinct_adj (map ptype (computeDiff text1 text2))"
  by (simp add: computeDiff_def side_mergeDiff types_mergeDiff
      side_backtrack_text1 side_backtrack_text2 side_Nil)

section \<open>Properties of the position mapper\<close>

lemma findEndPosition_loop_empty:
  "cs = [] \<Longrightarrow> findEndPosition_loop lines cs l c mc ms = Failure"
proof (induction lines cs l c mc ms rule: findEndPosition_loop.induct)
  case (1 lines cs l c mc ms)
  then show ?case
    by (subst findEndPosition_loop.simps) (simp add: Let_def)
qed

lemma pos_le_refl: "pos_le p p"
  by (simp add: pos_le_def)

lemma pos_le_trans: "pos_le p q \<Longrightarrow> pos_le q r \<Longrightarrow> pos_le p r"
  by (auto simp: pos_le_def)

lemma pos_le_less_trans: "pos_le p q \<Longrightarrow> pos_less q r \<Longrightarrow> pos_less p r"
  by (auto simp: pos_le_def pos_less_def)

lemma pos_less_imp_le: "pos_less p q \<Longrightarrow> pos_le p q"
  by (auto simp: pos_le_def pos_less_def)

lemma pos_le_next_column:
  "pos_le p \<lparr>lineIndex = l, columnIndex = c\<rparr> \<Longrightarrow> pos_le p \<lparr>lineIndex = l, columnIndex = Suc c\<rparr>"
  by (auto simp: pos_le_def)

lemma pos_less_next_column:
  "pos_le p \<lparr>lineIndex = l, columnIndex = c\<rparr> \<Longrightarrow> pos_less p \<lparr>lineIndex = l, columnIndex = Suc c\<rparr>"
  by (auto simp: pos_le_def pos_less_def)

lemma pos_le_next_line:
  "pos_le p \<lparr>lineIndex = l, columnIndex = c\<rparr> \<Longrightarrow> pos_le p \<lparr>lineIndex = Suc l, columnIndex = 0\<rparr>"
  by (auto simp: pos_le_def)

lemma lines_range_char:
  assumes "pos_le s0 \<lparr>lineIndex = l, columnIndex = c\<rparr>" and "c < length (lines ! l)"
  shows "lines_range lines s0 \<lparr>lineIndex = l, columnIndex = Suc c\<rparr> =
         lines_range lines s0 \<lparr>lineIndex = l, columnIndex = c\<rparr> @ [lines ! l ! c]"
proof (cases "lineIndex s0 = l")
  case True
  with assms have le: "columnIndex s0 \<le> c"
    by (simp add: pos_le_def)
  hence "Suc c - columnIndex s0 = Suc (c - columnIndex s0)"
    by simp
  moreover from le assms(2) have "c - columnIndex s0 < length (drop (columnIndex s0) (lines ! l))"
    by simp
  moreover from le assms(2) have "drop (columnIndex s0) (lines ! l) ! (c - columnIndex s0) = lines ! l ! c"
    by simp
  ultimately show ?thesis
    using True by (simp add: lines_range_def take_Suc_conv_app_nth)
next
  case False
  with assms show ?thesis
    by (simp add: lines_range_def take_Suc_conv_app_nth)
qed

lemma lines_range_line:
  assumes "pos_le s0 \<lparr>lineIndex = l, columnIndex = c\<rparr>" and "length (lines ! l) \<le> c"
    and "l < length lines"
  shows "lines_range lines s0 \<lparr>lineIndex = Suc l, columnIndex = 0\<rparr> =
         lines_range lines s0 \<lparr>lineIndex = l, columnIndex = c\<rparr> @ [10]"
proof (cases "lineIndex s0 = l")
  case True
  with assms show ?thesis
    by (simp add: lines_range_def)
next
  case False
  with assms(1) have lt: "lineIndex s0 < l"
    by (simp add: pos_le_def)
  let ?k = "l - lineIndex s0 - 1"
  let ?ys = "drop (lineIndex s0 + 1) lines"
  from lt assms(3) have k: "?k < length ?ys"
    by simp
  from lt assms(3) have nth: "?ys ! ?k = lines ! l"
    by simp
  from lt have suc: "Suc l - lineIndex s0 - 1 = Suc ?k"
    by simp
  have "take (Suc ?k) ?ys = take ?k ?ys @ [lines ! l]"
    using k nth by (simp add: take_Suc_conv_app_nth)
  with lt suc assms(2) show ?thesis
    by (simp add: lines_range_def)
qed

lemma strip_append: "strip (xs @ ys) = strip xs @ strip ys"
  by (simp add: strip_def)

lemma strip_space: "is_space x \<Longrightarrow> strip [x] = []"
  by (simp add: strip_def)

lemma strip_char: "\<not> is_space x \<Longrightarrow> strip [x] = [x]"
  by (simp add: strip_def)

lemma is_space_newline: "is_space 10"
  by (simp add: is_space_def)

lemma match_inv_space:
  assumes "match_inv lines cs p0 l c mc ms" and "c < length (lines ! l)"
    and "is_space (lines ! l ! c)"
  shows "match_inv lines cs p0 l (Suc c) mc ms"
  using assms
  by (auto simp: match_inv_def lines_range_char strip_append strip_space
      intro: pos_le_next_column)

lemma match_inv_line:
  assumes "match_inv lines cs p0 l c mc ms" and "length (lines ! l) \<le> c" and "l < length lines"
  shows "match_inv lines cs p0 (Suc l) 0 mc ms"
  using assms
  by (auto simp: match_inv_def lines_range_line strip_append strip_space is_space_newline
      intro: pos_le_next_line)

lemma lines_range_start:
  "c < length (lines ! l) \<Longrightarrow>
   lines_range lines \<lparr>lineIndex = l, columnIndex = c\<rparr> \<lparr>lineIndex = l, columnIndex = Suc c\<rparr>
     = [lines ! l ! c]"
  by (simp add: lines_range_def take_Suc_conv_app_nth)

text \<open>The candidate start after a matching character, and what the match covers then.\<close>

lemma match_step:
  assumes inv: "match_inv lines cs p0 l c mc ms" and c: "c < length (lines ! l)"
    and ns: "\<not> is_space (lines ! l ! c)" and mc: "mc < length cs" and eq: "lines ! l ! c = cs ! mc"
    and p0: "pos_le p0 \<lparr>lineIndex = l, columnIndex = c\<rparr>"
  defines "start \<equiv> (if mc = 0 then Some \<lparr>lineIndex = l, columnIndex = c\<rparr> else ms)"
  shows "\<exists>s0. start = Some s0 \<and> pos_le p0 s0 \<and> pos_le s0 \<lparr>lineIndex = l, columnIndex = c\<rparr> \<and>
           strip (lines_range lines s0 \<lparr>lineIndex = l, columnIndex = Suc c\<rparr>) = take (Suc mc) cs"
proof (cases "mc = 0")
  case True
  with c ns mc eq p0 show ?thesis
    by (simp add: start_def pos_le_refl lines_range_start strip_char take_Suc_conv_app_nth)
next
  case False
  with inv obtain s0 where s0: "ms = Some s0" "pos_le p0 s0"
      "pos_le s0 \<lparr>lineIndex = l, columnIndex = c\<rparr>"
      "strip (lines_range lines s0 \<lparr>lineIndex = l, columnIndex = c\<rparr>) = take mc cs"
    by (auto simp: match_inv_def)
  with False c ns mc eq show ?thesis
    by (simp add: start_def lines_range_char strip_append strip_char take_Suc_conv_app_nth)
qed

lemma findEndPosition_loop_sound:
  "findEndPosition_loop lines cs l c mc ms = Success s e \<Longrightarrow>
   match_inv lines cs p0 l c mc ms \<Longrightarrow>
   pos_le p0 \<lparr>lineIndex = l, columnIndex = c\<rparr> \<Longrightarrow>
   strip (lines_range lines s e) = cs \<and> pos_le p0 s \<and> pos_less s e"
proof (induction lines cs l c mc ms rule: findEndPosition_loop.induct)
  case (1 lines cs l c mc ms)
  note res = "1.prems"(1) and inv = "1.prems"(2) and p0 = "1.prems"(3)
  show ?case
  proof (cases "l < length lines")
    case False
    with res show ?thesis
      by (subst (asm) findEndPosition_loop.simps) simp
  next
    case l: True
    show ?thesis
    proof (cases "c < length (lines ! l)")
      case False
      with l res have "findEndPosition_loop lines cs (Suc l) 0 mc ms = Success s e"
        by (subst (asm) findEndPosition_loop.simps) simp
      moreover from False have "length (lines ! l) \<le> c"
        by simp
      with inv have "match_inv lines cs p0 (Suc l) 0 mc ms"
        using l by (rule match_inv_line)
      moreover from p0 have "pos_le p0 \<lparr>lineIndex = Suc l, columnIndex = 0\<rparr>"
        by (rule pos_le_next_line)
      ultimately show ?thesis
        using "1.IH"(4) [OF l False] by simp
    next
      case c: True
      let ?x = "lines ! l ! c"
      from p0 have p0': "pos_le p0 \<lparr>lineIndex = l, columnIndex = Suc c\<rparr>"
        by (rule pos_le_next_column)
      show ?thesis
      proof (cases "is_space ?x")
        case True
        with l c res have "findEndPosition_loop lines cs l (Suc c) mc ms = Success s e"
          by (subst (asm) findEndPosition_loop.simps) simp
        moreover from inv c True have "match_inv lines cs p0 l (Suc c) mc ms"
          by (rule match_inv_space)
        ultimately show ?thesis
          using "1.IH"(1) [OF l c refl True] p0' by simp
      next
        case ns: False
        show ?thesis
        proof (cases "mc < length cs \<and> ?x = cs ! mc")
          case False
          with l c ns res have "findEndPosition_loop lines cs l (Suc c) 0 None = Success s e"
            by (subst (asm) findEndPosition_loop.simps) auto
          moreover have "match_inv lines cs p0 l (Suc c) 0 None"
            by (simp add: match_inv_def)
          ultimately show ?thesis
            using "1.IH"(3) [OF l c refl ns False] p0' by simp
        next
          case m: True
          define start where
            "start = (if mc = 0 then Some \<lparr>lineIndex = l, columnIndex = c\<rparr> else ms)"
          from match_step [OF inv c ns _ _ p0] m obtain s0 where s0: "start = Some s0"
              "pos_le p0 s0" "pos_le s0 \<lparr>lineIndex = l, columnIndex = c\<rparr>"
              "strip (lines_range lines s0 \<lparr>lineIndex = l, columnIndex = Suc c\<rparr>) = take (Suc mc) cs"
            unfolding start_def by blast
          show ?thesis
          proof (cases "mc + 1 = length cs")
            case True
            with l c ns m res have "s = s0" "e = \<lparr>lineIndex = l, columnIndex = Suc c\<rparr>"
              using s0(1) unfolding start_def
              by (subst (asm) findEndPosition_loop.simps; simp add: Let_def)+
            with s0 True show ?thesis
              by (simp add: pos_less_next_column)
          next
            case False
            with l c ns m res
            have "findEndPosition_loop lines cs l (Suc c) (Suc mc) start = Success s e"
              unfolding start_def
              by (subst (asm) findEndPosition_loop.simps) (simp add: Let_def)
            moreover from s0 m False have "match_inv lines cs p0 l (Suc c) (mc + 1) start"
              by (auto simp: match_inv_def intro: pos_le_next_column)
            ultimately show ?thesis
              using "1.IH"(2) [OF l c refl ns m start_def False] p0' by simp
          qed
        qed
      qed
    qed
  qed
qed







lemma findEndPosition_sound:
  assumes "findEndPosition sentence originalText p = Success s e"
  shows "strip (range_text originalText s e) = strip sentence \<and> pos_le p s \<and> pos_less s e"
proof -
  have "pos_le p \<lparr>lineIndex = lineIndex p, columnIndex = columnIndex p\<rparr>"
    by (simp add: pos_le_def)
  moreover have "match_inv (split_newline originalText) (strip sentence) p
      (lineIndex p) (columnIndex p) 0 None"
    by (simp add: match_inv_def)
  ultimately show ?thesis
    using assms findEndPosition_loop_sound
    unfolding findEndPosition_def range_text_def by blast
qed

lemma position_eta: "\<lparr>lineIndex = lineIndex p, columnIndex = columnIndex p\<rparr> = (p::Position)"
  by (cases p) simp


lemmas findEndPosition_eval =
  findEndPosition_def findEndPosition_loop.simps str_def strip_def is_space_def Let_def

lemma calculateRanges_loop_acc:
  "calculateRanges_loop sentences originalText cur acc =
     acc @ calculateRanges_loop sentences originalText cur []"
proof (induction sentences arbitrary: cur acc)
  case Nil
  show ?case by simp
next
  case (Cons sentence rest)
  show ?case
  proof (cases "findEndPosition sentence originalText cur")
    case (Success s e)
    then show ?thesis
      using Cons.IH [of e "acc @ [\<lparr>srange = \<lparr>startsAt = s, endsAt = e\<rparr>, stext = sentence\<rparr>]"]
        Cons.IH [of e "[\<lparr>srange = \<lparr>startsAt = s, endsAt = e\<rparr>, stext = sentence\<rparr>]"]
      by (simp add: position_eta)
  next
    case Failure
    then show ?thesis
      using Cons.IH [of cur acc] by simp
  qed
qed

lemma calculateRanges_loop_increasing:
  "list_all (\<lambda>d. pos_le cur (startsAt (srange d)) \<and> pos_less (startsAt (srange d)) (endsAt (srange d)))
     (calculateRanges_loop sentences originalText cur []) \<and>
   sorted_wrt (\<lambda>a b. pos_le (endsAt (srange a)) (startsAt (srange b)))
     (calculateRanges_loop sentences originalText cur [])"
proof (induction sentences arbitrary: cur)
  case Nil
  show ?case by simp
next
  case (Cons sentence rest)
  show ?case
  proof (cases "findEndPosition sentence originalText cur")
    case Failure
    with Cons.IH [of cur] show ?thesis by simp
  next
    case (Success s e)
    let ?d = "\<lparr>srange = \<lparr>startsAt = s, endsAt = e\<rparr>, stext = sentence\<rparr>"
    let ?rest = "calculateRanges_loop rest originalText e []"
    from Success have eq: "calculateRanges_loop (sentence # rest) originalText cur [] = ?d # ?rest"
      using calculateRanges_loop_acc [of rest originalText e "[?d]"] by (simp add: position_eta)
    from Success have se: "pos_le cur s" "pos_less s e"
      using findEndPosition_sound by blast+
    hence ce: "pos_le cur e"
      by (blast intro: pos_le_trans pos_less_imp_le)
    from Cons.IH [of e]
    have after: "\<forall>d\<in>set ?rest. pos_le e (startsAt (srange d)) \<and>
        pos_less (startsAt (srange d)) (endsAt (srange d))"
      and sorted: "sorted_wrt (\<lambda>a b. pos_le (endsAt (srange a)) (startsAt (srange b))) ?rest"
      by (simp_all add: list_all_iff)
    from after ce have "\<forall>d\<in>set ?rest. pos_le cur (startsAt (srange d))"
      by (blast intro: pos_le_trans)
    with after sorted se show ?thesis
      unfolding eq by (simp add: list_all_iff)
  qed
qed

text \<open>
  C7: the ranges \<open>calculateRanges\<close> produces for one paragraph are in document order
  and do not overlap: every range ends at or before the start of every later one, every
  range starts before it ends, and none starts before the paragraph's first cursor. The
  search for the next sentence starts at the end of the sentence just located, and a
  sentence that is not located leaves the cursor where it was.
\<close>

theorem calculateRanges_increasing:
  "sorted_wrt (\<lambda>a b. pos_le (endsAt (srange a)) (startsAt (srange b)))
     (calculateRanges sentences originalText startLine) \<and>
   list_all (\<lambda>d. pos_le \<lparr>lineIndex = startLine, columnIndex = 0\<rparr> (startsAt (srange d)) \<and>
                 pos_less (startsAt (srange d)) (endsAt (srange d)))
     (calculateRanges sentences originalText startLine) \<and>
   (\<forall>sentence rest cur acc s e.
      findEndPosition sentence originalText cur = Success s e \<longrightarrow>
      calculateRanges_loop (sentence # rest) originalText cur acc =
        calculateRanges_loop rest originalText e
          (acc @ [\<lparr>srange = \<lparr>startsAt = s, endsAt = e\<rparr>, stext = sentence\<rparr>])) \<and>
   (\<forall>sentence rest cur acc.
      findEndPosition sentence originalText cur = Failure \<longrightarrow>
      calculateRanges_loop (sentence # rest) originalText cur acc =
        calculateRanges_loop rest originalText cur acc)"
  using calculateRanges_loop_increasing [of "\<lparr>lineIndex = startLine, columnIndex = 0\<rparr>" sentences originalText]
  by (simp add: calculateRanges_def position_eta)

theorem calculateRanges_increasing_witness:
  "findEndPosition (str ''ab'') (str ''ab cd'') \<lparr>lineIndex = 0, columnIndex = 0\<rparr>
     = Success \<lparr>lineIndex = 0, columnIndex = 0\<rparr> \<lparr>lineIndex = 0, columnIndex = 2\<rparr> \<and>
   findEndPosition (str ''zz'') (str ''ab cd'') \<lparr>lineIndex = 0, columnIndex = 2\<rparr> = Failure \<and>
   calculateRanges_loop [str ''ab'', str ''zz'', str ''cd''] (str ''ab cd'')
       \<lparr>lineIndex = 0, columnIndex = 0\<rparr> [] =
     calculateRanges_loop [str ''cd''] (str ''ab cd'') \<lparr>lineIndex = 0, columnIndex = 2\<rparr>
       [\<lparr>srange = \<lparr>startsAt = \<lparr>lineIndex = 0, columnIndex = 0\<rparr>,
                   endsAt = \<lparr>lineIndex = 0, columnIndex = 2\<rparr>\<rparr>, stext = str ''ab''\<rparr>] \<and>
   sorted_wrt (\<lambda>a b. pos_le (endsAt (srange a)) (startsAt (srange b)))
     (calculateRanges [str ''ab'', str ''zz'', str ''cd''] (str ''ab cd'') 0) \<and>
   map srange (calculateRanges [str ''ab'', str ''zz'', str ''cd''] (str ''ab cd'') 0) =
     [\<lparr>startsAt = \<lparr>lineIndex = 0, columnIndex = 0\<rparr>, endsAt = \<lparr>lineIndex = 0, columnIndex = 2\<rparr>\<rparr>,
      \<lparr>startsAt = \<lparr>lineIndex = 0, columnIndex = 3\<rparr>, endsAt = \<lparr>lineIndex = 0, columnIndex = 5\<rparr>\<rparr>]"
proof -
  let ?T = "str ''ab cd''"
  have a: "findEndPosition (str ''ab'') ?T \<lparr>lineIndex = 0, columnIndex = 0\<rparr>
     = Success \<lparr>lineIndex = 0, columnIndex = 0\<rparr> \<lparr>lineIndex = 0, columnIndex = 2\<rparr>"
    by (simp add: findEndPosition_eval)
  have b: "findEndPosition (str ''zz'') ?T \<lparr>lineIndex = 0, columnIndex = 2\<rparr> = Failure"
    by (simp add: findEndPosition_eval)
  have c: "map srange (calculateRanges [str ''ab'', str ''zz'', str ''cd''] ?T 0) =
     [\<lparr>startsAt = \<lparr>lineIndex = 0, columnIndex = 0\<rparr>, endsAt = \<lparr>lineIndex = 0, columnIndex = 2\<rparr>\<rparr>,
      \<lparr>startsAt = \<lparr>lineIndex = 0, columnIndex = 3\<rparr>, endsAt = \<lparr>lineIndex = 0, columnIndex = 5\<rparr>\<rparr>]"
    by (simp add: calculateRanges_def findEndPosition_eval)
  note inst = calculateRanges_increasing [of "[str ''ab'', str ''zz'', str ''cd'']" ?T 0]
  from inst have sorted: "sorted_wrt (\<lambda>a b. pos_le (endsAt (srange a)) (startsAt (srange b)))
     (calculateRanges [str ''ab'', str ''zz'', str ''cd''] ?T 0)"
    by blast
  from inst a have step1: "calculateRanges_loop [str ''ab'', str ''zz'', str ''cd''] ?T
       \<lparr>lineIndex = 0, columnIndex = 0\<rparr> [] =
     calculateRanges_loop [str ''zz'', str ''cd''] ?T \<lparr>lineIndex = 0, columnIndex = 2\<rparr>
       ([] @ [\<lparr>srange = \<lparr>startsAt = \<lparr>lineIndex = 0, columnIndex = 0\<rparr>,
                   endsAt = \<lparr>lineIndex = 0, columnIndex = 2\<rparr>\<rparr>, stext = str ''ab''\<rparr>])"
    by blast
  from inst b have step2: "calculateRanges_loop [str ''zz'', str ''cd''] ?T \<lparr>lineIndex = 0, columnIndex = 2\<rparr>
       [\<lparr>srange = \<lparr>startsAt = \<lparr>lineIndex = 0, columnIndex = 0\<rparr>,
                   endsAt = \<lparr>lineIndex = 0, columnIndex = 2\<rparr>\<rparr>, stext = str ''ab''\<rparr>] =
      calculateRanges_loop [str ''cd''] ?T \<lparr>lineIndex = 0, columnIndex = 2\<rparr>
       [\<lparr>srange = \<lparr>startsAt = \<lparr>lineIndex = 0, columnIndex = 0\<rparr>,
                   endsAt = \<lparr>lineIndex = 0, columnIndex = 2\<rparr>\<rparr>, stext = str ''ab''\<rparr>]"
    by blast
  from a b c sorted step1 step2 show ?thesis
    by simp
qed

text \<open>
  C9: for a sentence of whitespace only, the empty sentence included, \<open>findEndPosition\<close>
  returns no range, whatever the document and the start position.
\<close>

theorem findEndPosition_whitespace_only:
  "list_all is_space sentence \<Longrightarrow> findEndPosition sentence originalText startPosition = Failure"
proof -
  assume "list_all is_space sentence"
  hence "strip sentence = []"
    by (simp add: strip_def list_all_iff)
  thus ?thesis
    by (simp add: findEndPosition_def findEndPosition_loop_empty)
qed

theorem findEndPosition_whitespace_only_witness:
  "list_all is_space [32, 9, 12288] \<and>
   findEndPosition [32, 9, 12288] (str ''a b'') \<lparr>lineIndex = 0, columnIndex = 0\<rparr> = Failure \<and>
   findEndPosition [] (str ''a b'') \<lparr>lineIndex = 0, columnIndex = 0\<rparr> = Failure"
proof -
  have h: "list_all is_space [32, 9, 12288]"
    by (simp add: is_space_def)
  have e: "list_all is_space []"
    by simp
  from h e findEndPosition_whitespace_only [OF h] findEndPosition_whitespace_only [OF e]
  show ?thesis by blast
qed




section \<open>Properties of the batches and of the correction stream\<close>

lemma those_map_Some: "those (map Some xs) = Some xs"
  by (induction xs) simp_all

lemma promise_all_loop_fulfilled:
  assumes "length slots = length ts"
    and "\<forall>k<length ts. slots ! k = None \<or> slots ! k = Some (f (ts ! k))"
    and "\<forall>k<length ts. slots ! k \<noteq> None \<or> k \<in> set order"
  shows "promise_all_loop order (map (\<lambda>t. Fulfilled (f t)) ts) slots = Some (Fulfilled (map f ts))"
  using assms
proof (induction order arbitrary: slots)
  case Nil
  have "slots = map Some (map f ts)"
  proof (rule nth_equalityI)
    show "length slots = length (map Some (map f ts))"
      using Nil.prems(1) by simp
  next
    fix k assume "k < length slots"
    with Nil.prems(1) have k: "k < length ts"
      by simp
    with Nil.prems(2,3) have "slots ! k = Some (f (ts ! k))"
      by (metis empty_iff list.set(1))
    with k show "slots ! k = map Some (map f ts) ! k"
      by simp
  qed
  hence "those slots = Some (map f ts)"
    by (simp only: those_map_Some)
  then show ?case
    by simp
next
  case (Cons j order)
  show ?case
  proof (cases "j < length ts")
    case False
    with Cons.prems(3) have "\<forall>k<length ts. slots ! k \<noteq> None \<or> k \<in> set order"
      by auto
    with Cons.IH [of slots] Cons.prems(1,2) False show ?thesis
      by simp
  next
    case True
    let ?slots = "slots[j := Some (f (ts ! j))]"
    have "length ?slots = length ts"
      using Cons.prems(1) by simp
    moreover have "\<forall>k<length ts. ?slots ! k = None \<or> ?slots ! k = Some (f (ts ! k))"
      using Cons.prems(1,2) True by (auto simp: nth_list_update)
    moreover have "\<forall>k<length ts. ?slots ! k \<noteq> None \<or> k \<in> set order"
      using Cons.prems(1,3) True by (auto simp: nth_list_update)
    ultimately have "promise_all_loop order (map (\<lambda>t. Fulfilled (f t)) ts) ?slots =
        Some (Fulfilled (map f ts))"
      by (rule Cons.IH)
    with True show ?thesis
      by simp
  qed
qed

lemma promise_all_fulfilled:
  assumes "\<forall>k<length ts. k \<in> set order"
  shows "promise_all order (map (\<lambda>t. Fulfilled (f t)) ts) = Some (Fulfilled (map f ts))"
  unfolding promise_all_def
  using promise_all_loop_fulfilled [of "replicate (length ts) None" ts f order] assms
  by simp

lemma all_settle_batch:
  assumes "all_settle maxConcurrency sched n" and "i < n"
  shows "\<forall>k<min maxConcurrency (n - i). k \<in> set (sched i)"
  using assms by (auto simp: all_settle_def list_all_iff)

lemma run_batches_fulfilled:
  assumes mc: "0 < maxConcurrency"
    and work: "\<forall>t\<in>set tasks. work t = Fulfilled (f t)"
    and settle: "all_settle maxConcurrency sched (length tasks)"
  shows "run_batches maxConcurrency sched work tasks i results =
           Some (Completed (results @ map f (drop i tasks)))"
proof (induction "length tasks - i" arbitrary: i results rule: less_induct)
  case less
  show ?case
  proof (cases "i < length tasks")
    case False
    then show ?thesis
      by (subst run_batches.simps) simp
  next
    case True
    let ?batch = "slice tasks i (i + maxConcurrency)"
    have batch: "?batch = take maxConcurrency (drop i tasks)"
      by (simp add: slice_def)
    have "set ?batch \<subseteq> set tasks"
      unfolding batch by (meson set_take_subset set_drop_subset subset_trans)
    with work have "map work ?batch = map (\<lambda>t. Fulfilled (f t)) ?batch"
      by (intro map_cong) auto
    moreover have "\<forall>k<length ?batch. k \<in> set (sched i)"
      using all_settle_batch [OF settle True] unfolding batch by (simp add: min.commute)
    hence "promise_all (sched i) (map (\<lambda>t. Fulfilled (f t)) ?batch) = Some (Fulfilled (map f ?batch))"
      by (rule promise_all_fulfilled)
    ultimately have all: "promise_all (sched i) (map work ?batch) = Some (Fulfilled (map f ?batch))"
      by (simp only:)
    from True mc have "length tasks - (i + maxConcurrency) < length tasks - i"
      by simp
    hence "run_batches maxConcurrency sched work tasks (i + maxConcurrency) (results @ map f ?batch) =
        Some (Completed ((results @ map f ?batch) @ map f (drop (i + maxConcurrency) tasks)))"
      by (rule less)
    moreover have "map f ?batch @ map f (drop (i + maxConcurrency) tasks) = map f (drop i tasks)"
      unfolding batch
      by (metis add.commute append_take_drop_id drop_drop map_append)
    ultimately show ?thesis
      using True all by (subst run_batches.simps) simp
  qed
qed

lemma those_eq_Some: "those xs = Some ys \<Longrightarrow> xs = map Some ys"
  by (induction xs arbitrary: ys) (auto split: option.splits)

lemma promise_all_loop_sound:
  assumes "promise_all_loop order ps slots = Some (Fulfilled vs)"
    and "length slots = length ps"
    and "\<forall>k<length ps. \<forall>v. slots ! k = Some v \<longrightarrow> ps ! k = Fulfilled v"
  shows "ps = map Fulfilled vs"
  using assms
proof (induction order arbitrary: slots)
  case Nil
  from Nil.prems(1) have "those slots = Some vs"
    by (simp split: option.splits)
  hence slots: "slots = map Some vs"
    by (rule those_eq_Some)
  show ?case
  proof (rule nth_equalityI)
    show "length ps = length (map Fulfilled vs)"
      using slots Nil.prems(2) by simp
  next
    fix k assume k: "k < length ps"
    with slots Nil.prems(2) have "slots ! k = Some (vs ! k)" "k < length vs"
      by simp_all
    with k Nil.prems(3) show "ps ! k = map Fulfilled vs ! k"
      by simp
  qed
next
  case (Cons j order)
  show ?case
  proof (cases "j < length ps")
    case False
    with Cons.prems(1) have "promise_all_loop order ps slots = Some (Fulfilled vs)"
      by simp
    then show ?thesis
      using Cons.prems(2,3) by (rule Cons.IH)
  next
    case True
    show ?thesis
    proof (cases "ps ! j")
      case Rejected
      with True Cons.prems(1) show ?thesis
        by simp
    next
      case (Fulfilled v)
      let ?slots = "slots[j := Some v]"
      from True Fulfilled Cons.prems(1)
      have "promise_all_loop order ps ?slots = Some (Fulfilled vs)"
        by simp
      moreover have "length ?slots = length ps"
        using Cons.prems(2) by simp
      moreover have "\<forall>k<length ps. \<forall>w. ?slots ! k = Some w \<longrightarrow> ps ! k = Fulfilled w"
        using Cons.prems(2,3) True Fulfilled by (auto simp: nth_list_update)
      ultimately show ?thesis
        by (rule Cons.IH)
    qed
  qed
qed

lemma promise_all_sound:
  "promise_all order ps = Some (Fulfilled vs) \<Longrightarrow> ps = map Fulfilled vs"
  unfolding promise_all_def
  using promise_all_loop_sound [of order ps "replicate (length ps) None" vs] by simp

text \<open>
  Whatever the tasks do and however the loop ends, what it has appended are the values of
  the first tasks, in order, and each of these tasks was fulfilled.
\<close>

lemma run_batches_sound:
  assumes mc: "0 < maxConcurrency"
  shows "run_batches maxConcurrency sched work tasks i results = Some outcome \<Longrightarrow>
         \<exists>vs. yielded outcome = results @ vs \<and> length vs \<le> length tasks - i \<and>
              map work (take (length vs) (drop i tasks)) = map Fulfilled vs"
proof (induction "length tasks - i" arbitrary: i results rule: less_induct)
  case less
  note run = less.prems
  show ?case
  proof (cases "i < length tasks")
    case False
    with run have "outcome = Completed results"
      by (subst (asm) run_batches.simps) simp
    then show ?thesis
      by (intro exI [of _ "[]"]) simp
  next
    case True
    let ?batch = "take maxConcurrency (drop i tasks)"
    have batch: "slice tasks i (i + maxConcurrency) = ?batch"
      by (simp add: slice_def)
    show ?thesis
    proof (cases "promise_all (sched i) (map work ?batch)")
      case None
      with True run batch show ?thesis
        by (subst (asm) run_batches.simps) simp
    next
      case (Some settled)
      show ?thesis
      proof (cases settled)
        case Rejected
        with True run batch Some have "outcome = Aborted results"
          by (subst (asm) run_batches.simps) simp
        then show ?thesis
          by (intro exI [of _ "[]"]) simp
      next
        case (Fulfilled bs)
        with Some have work: "map work ?batch = map Fulfilled bs"
          by (intro promise_all_sound) simp
        hence len: "length bs = min maxConcurrency (length tasks - i)"
          by (metis length_map length_take length_drop min.commute)
        from True run batch Some Fulfilled
        have "run_batches maxConcurrency sched work tasks (i + maxConcurrency) (results @ bs)
            = Some outcome"
          by (subst (asm) run_batches.simps) simp
        moreover from True mc have "length tasks - (i + maxConcurrency) < length tasks - i"
          by simp
        ultimately obtain vs where vs: "yielded outcome = (results @ bs) @ vs"
            "length vs \<le> length tasks - (i + maxConcurrency)"
            "map work (take (length vs) (drop (i + maxConcurrency) tasks)) = map Fulfilled vs"
          using less.hyps by blast
        have first: "take (length bs) (drop i tasks) = ?batch"
          unfolding len by (cases "maxConcurrency \<le> length tasks - i") (simp_all add: min_def)
        have second: "take (length vs) (drop (length bs) (drop i tasks)) =
            take (length vs) (drop (i + maxConcurrency) tasks)"
        proof (cases "maxConcurrency \<le> length tasks - i")
          case True
          with len show ?thesis
            by (simp add: add.commute)
        next
          case False
          with vs(2) have "length vs = 0"
            by simp
          then show ?thesis
            by simp
        qed
        have "take (length (bs @ vs)) (drop i tasks) =
            ?batch @ take (length vs) (drop (i + maxConcurrency) tasks)"
          using first second by (simp add: take_add)
        with work vs(3) have "map work (take (length (bs @ vs)) (drop i tasks)) =
            map Fulfilled (bs @ vs)"
          by simp
        moreover from len vs(2) have "length (bs @ vs) \<le> length tasks - i"
          by simp
        ultimately show ?thesis
          using vs(1) by (intro exI [of _ "bs @ vs"]) simp
      qed
    qed
  qed
qed

text \<open>What the record of a fulfilled task is, by the response for its sentence.\<close>

lemma correctTask_record:
  assumes "correctTask corrector sentences (i, sentences ! i) = Fulfilled r"
  shows "case response_of corrector sentences i of
           WellTyped response \<Rightarrow>
             (let changed = (error response \<noteq> [] \<and>
                    response_correctedSentence response \<noteq> stext (sentences ! i))
              in originalSentence r = stext (sentences ! i) \<and>
                 (errors r \<noteq> [] \<longleftrightarrow> changed) \<and>
                 (changed \<longrightarrow> errors r = error response \<and>
                    correctedSentence r = response_correctedSentence response) \<and>
                 (\<not> changed \<longrightarrow> errors r = [] \<and> correctedSentence r = originalSentence r) \<and>
                 (errors r = [] \<longrightarrow> correctedSentence r = originalSentence r))
         | NoLength \<Rightarrow>
             originalSentence r = stext (sentences ! i) \<and> errors r = [] \<and>
             correctedSentence r = originalSentence r
         | NoError \<Rightarrow> False"
proof (cases "response_of corrector sentences i")
  case (WellTyped response)
  with assms show ?thesis
    by (cases "error response = []";
        cases "response_correctedSentence response = stext (sentences ! i)")
      (auto simp: correctTask_def response_of_def Let_def)
next
  case NoError
  with assms show ?thesis
    by (simp add: correctTask_def response_of_def Let_def)
next
  case NoLength
  with assms show ?thesis
    by (auto simp: correctTask_def response_of_def Let_def)
qed

lemma correctTask_fields:
  assumes "correctTask corrector sentences task = Fulfilled r"
  shows "crange r = srange (snd task)" and "originalSentence r = stext (snd task)"
  using assms
  by (auto simp: correctTask_def Let_def split: ParsedResponse.splits if_splits)

lemma correctTask_readable:
  assumes "response_of corrector sentences i \<noteq> NoError"
  shows "\<exists>r. correctTask corrector sentences (i, sentences ! i) = Fulfilled r"
  using assms
  by (cases "response_of corrector sentences i")
    (simp_all add: correctTask_def response_of_def Let_def)

lemma correctTextStream_yielded:
  assumes "0 < maxConcurrency"
    and "correctTextStream maxConcurrency sched corrector sentences = Some outcome"
    and "i < length (yielded outcome)"
  shows "i < length sentences \<and>
         correctTask corrector sentences (i, sentences ! i) = Fulfilled (yielded outcome ! i)"
proof -
  let ?tasks = "enumerate 0 sentences"
  from run_batches_sound [OF assms(1) assms(2) [unfolded correctTextStream_def]]
  obtain vs where vs: "yielded outcome = vs" "length vs \<le> length sentences"
      "map (correctTask corrector sentences) (take (length vs) ?tasks) = map Fulfilled vs"
    by auto
  with assms(3) have i: "i < length vs" "i < length sentences"
    by simp_all
  hence "map (correctTask corrector sentences) (take (length vs) ?tasks) ! i =
      correctTask corrector sentences (i, sentences ! i)"
    by (simp add: nth_enumerate_eq)
  with vs(3) i(1) have "correctTask corrector sentences (i, sentences ! i) = Fulfilled (vs ! i)"
    by simp
  with vs(1) i(2) show ?thesis
    by simp
qed

lemma correctTextStream_completed:
  assumes "0 < maxConcurrency" and "all_settle maxConcurrency sched (length sentences)"
    and "responses_readable corrector sentences"
  shows "\<exists>records.
           correctTextStream maxConcurrency sched corrector sentences = Some (Completed records) \<and>
           length records = length sentences"
proof -
  let ?tasks = "enumerate 0 sentences"
  define f where "f task =
      (case correctTask corrector sentences task of Fulfilled r \<Rightarrow> r | Rejected \<Rightarrow> undefined)"
    for task
  have "correctTask corrector sentences task = Fulfilled (f task)" if "task \<in> set ?tasks" for task
  proof -
    from that obtain i where i: "i < length sentences" "task = (i, sentences ! i)"
      by (auto simp: in_set_enumerate_eq)
    with assms(3) have "response_of corrector sentences i \<noteq> NoError"
      by (simp add: responses_readable_def list_all_iff)
    with i(2) correctTask_readable [of corrector sentences i] show ?thesis
      by (auto simp: f_def)
  qed
  hence "\<forall>task\<in>set ?tasks. correctTask corrector sentences task = Fulfilled (f task)"
    by blast
  moreover from assms(2) have "all_settle maxConcurrency sched (length ?tasks)"
    by simp
  ultimately have "run_batches maxConcurrency sched (correctTask corrector sentences) ?tasks 0 []
      = Some (Completed ([] @ map f (drop 0 ?tasks)))"
    using assms(1) by (intro run_batches_fulfilled) simp_all
  then show ?thesis
    by (simp add: correctTextStream_def)
qed

text \<open>
  C4, amended: when every correction call of every batch settles and no response is one on
  which reading \<open>response.error.length\<close> throws, \<open>correctTextStream\<close> yields exactly one
  record for each of the \<open>N\<close> input sentences and then returns; the \<open>i\<close>-th record is
  the one the task of the \<open>i\<close>-th sentence returns and has the range and the text of that
  sentence, whatever the batch size and the order in which the calls of a batch settle.
\<close>

theorem correctTextStream_order:
  assumes "0 < maxConcurrency" and "all_settle maxConcurrency sched (length sentences)"
    and "responses_readable corrector sentences"
  shows "\<exists>records.
           correctTextStream maxConcurrency sched corrector sentences = Some (Completed records) \<and>
           length records = length sentences \<and>
           (\<forall>i<length sentences.
              correctTask corrector sentences (i, sentences ! i) = Fulfilled (records ! i) \<and>
              crange (records ! i) = srange (sentences ! i) \<and>
              originalSentence (records ! i) = stext (sentences ! i))"
proof -
  from correctTextStream_completed [OF assms]
  obtain records where records:
      "correctTextStream maxConcurrency sched corrector sentences = Some (Completed records)"
      "length records = length sentences"
    by blast
  have "correctTask corrector sentences (i, sentences ! i) = Fulfilled (records ! i) \<and>
      crange (records ! i) = srange (sentences ! i) \<and>
      originalSentence (records ! i) = stext (sentences ! i)" if "i < length sentences" for i
  proof -
    from that records(2) have "i < length (yielded (Completed records))"
      by simp
    from correctTextStream_yielded [OF assms(1) records(1) this]
    have "correctTask corrector sentences (i, sentences ! i) = Fulfilled (records ! i)"
      by simp
    with correctTask_fields [OF this] show ?thesis
      by simp
  qed
  with records show ?thesis
    by blast
qed

text \<open>
  C3: every record \<open>correctTextStream\<close> yields, whether it then runs through or stops,
  carries errors exactly when the response for its sentence has a non-empty error list and
  a corrected sentence that differs from the sentence; then it carries the errors and the
  corrected sentence of the response. In every other case its errors are empty and its
  corrected sentence is the original one. So a record with no errors always has
  \<open>correctedSentence = originalSentence\<close>. When every call settles and no response makes
  a task throw, there is such a record for every sentence.
\<close>

theorem correctTextStream_record:
  assumes "0 < maxConcurrency"
  shows "(\<forall>outcome i.
            correctTextStream maxConcurrency sched corrector sentences = Some outcome \<and>
            i < length (yielded outcome) \<longrightarrow>
            i < length sentences \<and>
            (case response_of corrector sentences i of
               WellTyped response \<Rightarrow>
                 (let changed = (error response \<noteq> [] \<and>
                        response_correctedSentence response \<noteq> stext (sentences ! i));
                      r = yielded outcome ! i
                  in originalSentence r = stext (sentences ! i) \<and>
                     (errors r \<noteq> [] \<longleftrightarrow> changed) \<and>
                     (changed \<longrightarrow> errors r = error response \<and>
                        correctedSentence r = response_correctedSentence response) \<and>
                     (\<not> changed \<longrightarrow> errors r = [] \<and>
                        correctedSentence r = originalSentence r) \<and>
                     (errors r = [] \<longrightarrow> correctedSentence r = originalSentence r))
             | NoLength \<Rightarrow>
                 originalSentence (yielded outcome ! i) = stext (sentences ! i) \<and>
                 errors (yielded outcome ! i) = [] \<and>
                 correctedSentence (yielded outcome ! i) = originalSentence (yielded outcome ! i)
             | NoError \<Rightarrow> False)) \<and>
         (all_settle maxConcurrency sched (length sentences) \<and>
          responses_readable corrector sentences \<longrightarrow>
            (\<exists>records.
               correctTextStream maxConcurrency sched corrector sentences
                 = Some (Completed records) \<and>
               length records = length sentences))"
proof (intro conjI allI impI)
  fix outcome i
  assume "correctTextStream maxConcurrency sched corrector sentences = Some outcome \<and>
      i < length (yielded outcome)"
  with correctTextStream_yielded [OF assms, of sched corrector sentences outcome i]
  have i: "i < length sentences"
    and task: "correctTask corrector sentences (i, sentences ! i) = Fulfilled (yielded outcome ! i)"
    by simp_all
  from i show "i < length sentences" .
  from correctTask_record [OF task]
  show "case response_of corrector sentences i of
          WellTyped response \<Rightarrow>
            (let changed = (error response \<noteq> [] \<and>
                   response_correctedSentence response \<noteq> stext (sentences ! i));
                 r = yielded outcome ! i
             in originalSentence r = stext (sentences ! i) \<and>
                (errors r \<noteq> [] \<longleftrightarrow> changed) \<and>
                (changed \<longrightarrow> errors r = error response \<and>
                   correctedSentence r = response_correctedSentence response) \<and>
                (\<not> changed \<longrightarrow> errors r = [] \<and>
                   correctedSentence r = originalSentence r) \<and>
                (errors r = [] \<longrightarrow> correctedSentence r = originalSentence r))
        | NoLength \<Rightarrow>
            originalSentence (yielded outcome ! i) = stext (sentences ! i) \<and>
            errors (yielded outcome ! i) = [] \<and>
            correctedSentence (yielded outcome ! i) = originalSentence (yielded outcome ! i)
        | NoError \<Rightarrow> False"
    by (auto simp: Let_def split: ParsedResponse.splits)
next
  assume "all_settle maxConcurrency sched (length sentences) \<and>
      responses_readable corrector sentences"
  with assms show "\<exists>records.
      correctTextStream maxConcurrency sched corrector sentences = Some (Completed records) \<and>
      length records = length sentences"
    by (intro correctTextStream_completed) simp_all
qed


section \<open>Properties of the paragraph splitter\<close>

lemma buffer_of_Nil: "buffer_of [] = []"
  by (simp add: buffer_of_def)

lemma buffer_of_snoc: "buffer_of (block @ [line]) = buffer_of block @ line @ [10]"
  by (simp add: buffer_of_def)

lemma buffer_of_empty_iff: "buffer_of block = [] \<longleftrightarrow> block = []"
  by (cases block) (simp_all add: buffer_of_def)

lemma paragraphs_of_snoc:
  "paragraphs_of start (blocks @ [block]) =
     paragraphs_of start blocks
       @ [\<lparr>ptext = trim (buffer_of block), pstartLine = start + length (concat blocks)\<rparr>]"
  by (induction blocks arbitrary: start) (simp_all add: add.assoc)

lemma heading_blocks_Nil: "heading_blocks []"
  by (simp add: heading_blocks_def)

lemma heading_blocks_snoc:
  assumes "heading_blocks blocks" and "block \<noteq> []" and "\<forall>l\<in>set (tl block). \<not> startsWith_hash l"
    and "blocks \<noteq> [] \<longrightarrow> startsWith_hash (hd block)"
  shows "heading_blocks (blocks @ [block])"
  using assms by (cases blocks) (auto simp: heading_blocks_def)

lemma splitIntoParagraphs_loop_blocks:
  assumes "paragraphs = paragraphs_of 0 closed"
    and "currentParagraph = buffer_of current"
    and "startLine = length (concat closed)"
    and "heading_blocks closed"
    and "\<forall>l\<in>set (tl current). \<not> startsWith_hash l"
    and "closed \<noteq> [] \<longrightarrow> current \<noteq> [] \<and> startsWith_hash (hd current)"
  shows "\<exists>blocks. concat blocks = concat closed @ current @ lines \<and>
           splitIntoParagraphs_loop lines (length (concat closed) + length current)
             paragraphs currentParagraph startLine = paragraphs_of 0 blocks \<and>
           heading_blocks blocks"
  using assms
proof (induction lines arbitrary: paragraphs currentParagraph startLine closed current)
  case Nil
  show ?case
  proof (cases "current = []")
    case True
    with Nil.prems have "closed = []"
      by blast
    with True Nil.prems show ?thesis
      by (intro exI [of _ "[]"]) (simp add: buffer_of_Nil heading_blocks_Nil)
  next
    case False
    with Nil.prems have "heading_blocks (closed @ [current])"
      by (intro heading_blocks_snoc) simp_all
    with False Nil.prems show ?thesis
      by (intro exI [of _ "closed @ [current]"])
        (simp add: buffer_of_empty_iff paragraphs_of_snoc)
  qed
next
  case (Cons line rest)
  show ?case
  proof (cases "startsWith_hash line \<and> currentParagraph \<noteq> []")
    case True
    hence ne: "current \<noteq> []"
      using Cons.prems(2) by (simp add: buffer_of_empty_iff)
    let ?closed = "closed @ [current]"
    have 1: "paragraphs @ [\<lparr>ptext = trim currentParagraph, pstartLine = startLine\<rparr>] =
        paragraphs_of 0 ?closed"
      using Cons.prems(1,2,3) by (simp add: paragraphs_of_snoc)
    have 2: "[] @ line @ [10] = buffer_of [line]"
      by (simp add: buffer_of_def)
    have 3: "length (concat closed) + length current = length (concat ?closed)"
      by simp
    have 4: "heading_blocks ?closed"
      using Cons.prems(4,5,6) ne by (intro heading_blocks_snoc) simp_all
    have 5: "\<forall>l\<in>set (tl [line]). \<not> startsWith_hash l"
      by simp
    have 6: "?closed \<noteq> [] \<longrightarrow> [line] \<noteq> [] \<and> startsWith_hash (hd [line])"
      using True by simp
    from Cons.IH [OF 1 2 3 4 5 6]
    obtain blocks where "concat blocks = concat ?closed @ [line] @ rest"
      and "splitIntoParagraphs_loop rest (length (concat ?closed) + length [line])
             (paragraphs @ [\<lparr>ptext = trim currentParagraph, pstartLine = startLine\<rparr>])
             ([] @ line @ [10]) (length (concat closed) + length current) = paragraphs_of 0 blocks"
      and "heading_blocks blocks"
      by blast
    with True show ?thesis
      by (intro exI [of _ blocks]) (simp add: add.assoc)
  next
    case False
    let ?current = "current @ [line]"
    have 2: "currentParagraph @ line @ [10] = buffer_of ?current"
      using Cons.prems(2) by (simp add: buffer_of_snoc)
    have 5: "\<forall>l\<in>set (tl ?current). \<not> startsWith_hash l"
    proof (cases "current = []")
      case True
      then show ?thesis by simp
    next
      case ne: False
      with False Cons.prems(2) have "\<not> startsWith_hash line"
        by (simp add: buffer_of_empty_iff)
      with ne Cons.prems(5) show ?thesis
        by simp
    qed
    have 6: "closed \<noteq> [] \<longrightarrow> ?current \<noteq> [] \<and> startsWith_hash (hd ?current)"
      using Cons.prems(6) by auto
    from Cons.IH [OF Cons.prems(1) 2 Cons.prems(3) Cons.prems(4) 5 6]
    obtain blocks where "concat blocks = concat closed @ ?current @ rest"
      and "splitIntoParagraphs_loop rest (length (concat closed) + length ?current)
             paragraphs (currentParagraph @ line @ [10]) startLine = paragraphs_of 0 blocks"
      and "heading_blocks blocks"
      by blast
    with False show ?thesis
      by (intro exI [of _ blocks]) auto
  qed
qed

lemma split_newline_not_Nil: "split_newline text \<noteq> []"
  by (induction "text") (auto split: list.splits)

lemma buffer_of_split_newline: "buffer_of (split_newline text) = text @ [10]"
proof (induction "text")
  case Nil
  show ?case by (simp add: buffer_of_def)
next
  case (Cons c cs)
  then show ?case
    using split_newline_not_Nil [of cs]
    by (cases "split_newline cs") (auto simp: buffer_of_def)
qed

lemma trim_newline: "trim (text @ [10]) = trim text"
proof (cases "\<forall>c\<in>set text. is_space c")
  case True
  hence a: "dropWhile is_space text = []"
    by simp
  from True have b: "dropWhile is_space (text @ [10]) = []"
    by (simp add: is_space_newline)
  from a b show ?thesis
    by (simp only: trim_def)
next
  case False
  then obtain c where "c \<in> set text" "\<not> is_space c"
    by blast
  hence "dropWhile is_space (text @ [10]) = dropWhile is_space text @ [10]"
    by (simp add: dropWhile_append1)
  then show ?thesis
    by (simp add: trim_def is_space_newline)
qed

text \<open>
  C6, amended: the lines of the document fall into consecutive blocks cut at headings, and
  the paragraphs are those of the blocks: the text of each is the accumulated lines of its
  block with whitespace trimmed at both ends. For a document with no heading line the only
  paragraph has the whole document, trimmed at both ends, as its text.
\<close>

theorem splitIntoParagraphs_trimmed:
  "(\<exists>blocks. concat blocks = split_newline text \<and> heading_blocks blocks \<and>
      splitIntoParagraphs text = paragraphs_of 0 blocks) \<and>
   ((\<forall>line\<in>set (split_newline text). \<not> startsWith_hash line) \<longrightarrow>
      splitIntoParagraphs text = [\<lparr>ptext = trim text, pstartLine = 0\<rparr>])"
proof -
  have "\<exists>blocks. concat blocks = concat [] @ [] @ split_newline text \<and>
      splitIntoParagraphs_loop (split_newline text) (length (concat ([]::jsstring list list)) + length ([]::jsstring list))
        [] [] 0 = paragraphs_of 0 blocks \<and> heading_blocks blocks"
    by (rule splitIntoParagraphs_loop_blocks) (simp_all add: buffer_of_Nil heading_blocks_Nil)
  then obtain blocks where blocks: "concat blocks = split_newline text" "heading_blocks blocks"
      "splitIntoParagraphs text = paragraphs_of 0 blocks"
    by (auto simp: splitIntoParagraphs_def)
  have "splitIntoParagraphs text = [\<lparr>ptext = trim text, pstartLine = 0\<rparr>]"
    if plain: "\<forall>line\<in>set (split_newline text). \<not> startsWith_hash line"
  proof -
    from blocks(1) split_newline_not_Nil [of "text"] obtain b bs where bbs: "blocks = b # bs"
      by (cases blocks) auto
    have "bs = []"
    proof (rule ccontr)
      assume "bs \<noteq> []"
      then obtain b' bs' where "bs = b' # bs'"
        by (cases bs) auto
      with bbs blocks(2) have "b' \<noteq> []" "startsWith_hash (hd b')"
        by (simp_all add: heading_blocks_def)
      moreover from \<open>bs = b' # bs'\<close> bbs blocks(1) have "set b' \<subseteq> set (split_newline text)"
        by (metis concat.simps(2) set_append sup_ge1 sup_ge2 subset_trans)
      ultimately show False
        using plain by (metis hd_in_set subsetD)
    qed
    with bbs blocks(1) have "blocks = [split_newline text]"
      by simp
    with blocks(3) show ?thesis
      by (simp add: buffer_of_split_newline trim_newline)
  qed
  with blocks show ?thesis
    by blast
qed

lemmas paragraph_eval =
  splitIntoParagraphs_def trim_def trimEnd_def buffer_of_def startsWith_hash_def str_def
  is_space_def

text \<open>
  C6 as stated fails: for two blank lines followed by \<open>Hello\<close> the text of the only
  paragraph is \<open>Hello\<close>, not the buffer with only its trailing whitespace removed.
\<close>

theorem splitIntoParagraphs_leading_blank_lines:
  "splitIntoParagraphs ([10, 10] @ str ''Hello'') = [\<lparr>ptext = str ''Hello'', pstartLine = 0\<rparr>] \<and>
   trimEnd (buffer_of (split_newline ([10, 10] @ str ''Hello''))) = [10, 10] @ str ''Hello'' \<and>
   map ptext (splitIntoParagraphs ([10, 10] @ str ''Hello''))
     \<noteq> [trimEnd (buffer_of (split_newline ([10, 10] @ str ''Hello'')))]"
  by (simp add: paragraph_eval)

theorem splitIntoParagraphs_trimmed_witness:
  "list_all (\<lambda>line. \<not> startsWith_hash line) (split_newline ([10, 10] @ str ''Hello'')) \<and>
   splitIntoParagraphs ([10, 10] @ str ''Hello'') =
     [\<lparr>ptext = trim ([10, 10] @ str ''Hello''), pstartLine = 0\<rparr>] \<and>
   trim ([10, 10] @ str ''Hello'') = str ''Hello''"
proof -
  have h: "list_all (\<lambda>line. \<not> startsWith_hash line) (split_newline ([10, 10] @ str ''Hello''))"
    by (simp add: paragraph_eval)
  hence "\<forall>line\<in>set (split_newline ([10, 10] @ str ''Hello'')). \<not> startsWith_hash line"
    by (simp only: list_all_iff)
  with splitIntoParagraphs_trimmed [of "[10, 10] @ str ''Hello''"]
  have "splitIntoParagraphs ([10, 10] @ str ''Hello'') =
     [\<lparr>ptext = trim ([10, 10] @ str ''Hello''), pstartLine = 0\<rparr>]"
    by blast
  moreover have "trim ([10, 10] @ str ''Hello'') = str ''Hello''"
    by (simp add: paragraph_eval)
  ultimately show ?thesis
    using h by blast
qed

lemma scenario_paragraphs:
  "splitIntoParagraphs scenario_text =
     [\<lparr>ptext = scenario_text, pstartLine = 0\<rparr>]"
  by (simp add: scenario_text_def paragraph_eval)

lemma scenario_ranges:
  "calculateRanges [str ''This is a test.'', str ''It has two sentences.''] scenario_text 1 =
     [\<lparr>srange = \<lparr>startsAt = \<lparr>lineIndex = 1, columnIndex = 0\<rparr>,
                 endsAt = \<lparr>lineIndex = 1, columnIndex = 15\<rparr>\<rparr>,
       stext = str ''This is a test.''\<rparr>,
      \<lparr>srange = \<lparr>startsAt = \<lparr>lineIndex = 1, columnIndex = 17\<rparr>,
                 endsAt = \<lparr>lineIndex = 1, columnIndex = 38\<rparr>\<rparr>,
       stext = str ''It has two sentences.''\<rparr>]"
  by (simp add: calculateRanges_def scenario_text_def findEndPosition_eval)

section \<open>The concrete scenario and the sample stream\<close>

lemma all_settle_sample: "all_settle 2 sample_sched (length sample_sentences)"
  by (auto simp: all_settle_def sample_sched_def sample_sentences_def list_all_iff)

text \<open>
  C5: for the document \<open># Title\<close>, line feed, \<open>This is a test.  It has two sentences.\<close>
  and a segmentation service that returns the two sentences, \<open>processParagraphs\<close>
  gives exactly two sentences, starting at line 1, column 0 (the \<open>T\<close>) and at line 1,
  column 17 (the \<open>I\<close>).
\<close>

theorem processParagraphs_scenario:
  assumes "0 < maxConcurrency" and "all_settle maxConcurrency sched 1"
  shows "processParagraphs maxConcurrency sched scenario_segmenter scenario_text =
           Some (Fulfilled
             [\<lparr>srange = \<lparr>startsAt = \<lparr>lineIndex = 1, columnIndex = 0\<rparr>,
                         endsAt = \<lparr>lineIndex = 1, columnIndex = 15\<rparr>\<rparr>,
               stext = str ''This is a test.''\<rparr>,
              \<lparr>srange = \<lparr>startsAt = \<lparr>lineIndex = 1, columnIndex = 17\<rparr>,
                         endsAt = \<lparr>lineIndex = 1, columnIndex = 38\<rparr>\<rparr>,
               stext = str ''It has two sentences.''\<rparr>]) \<and>
         split_newline scenario_text ! 1 ! 0 = of_char CHR ''T'' \<and>
         split_newline scenario_text ! 1 ! 17 = of_char CHR ''I''"
proof -
  let ?sentences = "[str ''This is a test.'', str ''It has two sentences.'']"
  let ?tasks = "enumerate 0 (splitIntoParagraphs scenario_text)"
  let ?f = "\<lambda>task :: nat \<times> Paragraph.
      (fst task, calculateRanges ?sentences scenario_text (pstartLine (snd task) + 1))"
  have tasks: "?tasks = [(0, \<lparr>ptext = scenario_text, pstartLine = 0\<rparr>)]"
    by (simp add: scenario_paragraphs)
  have work: "\<forall>t\<in>set ?tasks. segmentTask scenario_segmenter scenario_text t = Fulfilled (?f t)"
    by (simp add: segmentTask_def scenario_segmenter_def splitIntoSentences_def)
  from assms(2) have settle: "all_settle maxConcurrency sched (length ?tasks)"
    by (simp add: tasks)
  have "run_batches maxConcurrency sched (segmentTask scenario_segmenter scenario_text) ?tasks 0 []
      = Some (Completed ([] @ map ?f (drop 0 ?tasks)))"
    using assms(1) work settle by (rule run_batches_fulfilled)
  hence "processParagraphs maxConcurrency sched scenario_segmenter scenario_text =
      Some (Fulfilled (calculateRanges ?sentences scenario_text 1))"
    by (simp add: processParagraphs_def tasks)
  moreover have "split_newline scenario_text ! 1 ! 0 = of_char CHR ''T''"
    "split_newline scenario_text ! 1 ! 17 = of_char CHR ''I''"
    by (simp_all add: scenario_text_def str_def)
  ultimately show ?thesis
    by (simp only: scenario_ranges simp_thms)
qed

theorem processParagraphs_scenario_witness:
  "0 < (10::nat) \<and> all_settle 10 (\<lambda>i. [0]) 1 \<and>
   processParagraphs 10 (\<lambda>i. [0]) scenario_segmenter scenario_text =
     Some (Fulfilled
       [\<lparr>srange = \<lparr>startsAt = \<lparr>lineIndex = 1, columnIndex = 0\<rparr>,
                   endsAt = \<lparr>lineIndex = 1, columnIndex = 15\<rparr>\<rparr>,
         stext = str ''This is a test.''\<rparr>,
        \<lparr>srange = \<lparr>startsAt = \<lparr>lineIndex = 1, columnIndex = 17\<rparr>,
                   endsAt = \<lparr>lineIndex = 1, columnIndex = 38\<rparr>\<rparr>,
         stext = str ''It has two sentences.''\<rparr>])"
proof -
  have h1: "0 < (10::nat)"
    by simp
  have h2: "all_settle 10 (\<lambda>i. [0]) 1"
    by (simp add: all_settle_def)
  from processParagraphs_scenario [OF h1 h2] h1 h2 show ?thesis
    by blast
qed

lemmas stream_eval =
  correctTextStream_def run_batches.simps promise_all_def slice_def correctTask_def
  callOpenAIAPI_def createCorrectionPrompt_def response_of_def responses_readable_def
  sample_sentences_def sample_sched_def Let_def str_def


lemma empty_object_stream:
  "correctTextStream 2 sample_sched empty_object_corrector sample_sentences =
     Some (Aborted
       [\<lparr>crange = \<lparr>startsAt = \<lparr>lineIndex = 0, columnIndex = 0\<rparr>,
                   endsAt = \<lparr>lineIndex = 0, columnIndex = 2\<rparr>\<rparr>,
         errors = [], originalSentence = str ''ab'', correctedSentence = str ''ab''\<rparr>,
        \<lparr>crange = \<lparr>startsAt = \<lparr>lineIndex = 0, columnIndex = 3\<rparr>,
                   endsAt = \<lparr>lineIndex = 0, columnIndex = 5\<rparr>\<rparr>,
         errors = [], originalSentence = str ''cd'', correctedSentence = str ''cd''\<rparr>])"
  by (simp add: stream_eval empty_object_corrector_def)


lemma sample_readable: "responses_readable sample_corrector sample_sentences"
  by (simp add: stream_eval sample_corrector_def)

lemma sample_responses:
  "response_of sample_corrector sample_sentences 0 =
     WellTyped \<lparr>error = [str ''typo''], response_correctedSentence = str ''abc''\<rparr>"
  "response_of sample_corrector sample_sentences 1 =
     WellTyped \<lparr>error = [], response_correctedSentence = []\<rparr>"
  "response_of sample_corrector sample_sentences 2 =
     WellTyped \<lparr>error = [str ''style''], response_correctedSentence = str ''ef''\<rparr>"
  by (simp_all add: stream_eval sample_corrector_def)

theorem correctTextStream_order_witness:
  "0 < (2::nat) \<and> all_settle 2 sample_sched (length sample_sentences) \<and>
   responses_readable sample_corrector sample_sentences \<and>
   (\<exists>records.
      correctTextStream 2 sample_sched sample_corrector sample_sentences = Some (Completed records) \<and>
      length records = 3 \<and>
      map crange records = map srange sample_sentences \<and>
      map originalSentence records = [str ''ab'', str ''cd'', str ''ef''])"
proof -
  have h1: "0 < (2::nat)"
    by simp
  note h2 = all_settle_sample and h3 = sample_readable
  from correctTextStream_order [OF h1 h2 h3]
  obtain records where r: "correctTextStream 2 sample_sched sample_corrector sample_sentences =
      Some (Completed records)"
    "length records = length sample_sentences"
    "\<forall>i<length sample_sentences. crange (records ! i) = srange (sample_sentences ! i) \<and>
        originalSentence (records ! i) = stext (sample_sentences ! i)"
    by blast
  have len: "length sample_sentences = 3"
    by (simp add: sample_sentences_def)
  from r(2,3) have "map crange records = map srange sample_sentences"
    by (intro nth_equalityI) simp_all
  moreover from r(2,3) have "map originalSentence records = map stext sample_sentences"
    by (intro nth_equalityI) simp_all
  hence "map originalSentence records = [str ''ab'', str ''cd'', str ''ef'']"
    by (simp add: sample_sentences_def)
  ultimately show ?thesis
    using h1 h2 h3 r(1,2) len by auto
qed

text \<open>
  C4 as stated fails: every call of the run resolves, the one for the third sentence with
  \<open>{}\<close>; the task of that sentence throws, and only two records are yielded for the three
  sentences.
\<close>

theorem correctTextStream_empty_object:
  "all_settle 2 sample_sched (length sample_sentences) \<and>
   length sample_sentences = 3 \<and>
   empty_object_corrector 0 (createCorrectionPrompt (str ''ab'') (getContext sample_sentences 0))
     = Json (WellTyped \<lparr>error = [], response_correctedSentence = str ''ab''\<rparr>) \<and>
   empty_object_corrector 1 (createCorrectionPrompt (str ''cd'') (getContext sample_sentences 1))
     = Json (WellTyped \<lparr>error = [], response_correctedSentence = str ''cd''\<rparr>) \<and>
   empty_object_corrector 2 (createCorrectionPrompt (str ''ef'') (getContext sample_sentences 2))
     = Json NoError \<and>
   correctTextStream 2 sample_sched empty_object_corrector sample_sentences =
     Some (Aborted
       [\<lparr>crange = \<lparr>startsAt = \<lparr>lineIndex = 0, columnIndex = 0\<rparr>,
                   endsAt = \<lparr>lineIndex = 0, columnIndex = 2\<rparr>\<rparr>,
         errors = [], originalSentence = str ''ab'', correctedSentence = str ''ab''\<rparr>,
        \<lparr>crange = \<lparr>startsAt = \<lparr>lineIndex = 0, columnIndex = 3\<rparr>,
                   endsAt = \<lparr>lineIndex = 0, columnIndex = 5\<rparr>\<rparr>,
         errors = [], originalSentence = str ''cd'', correctedSentence = str ''cd''\<rparr>])"
  using all_settle_sample empty_object_stream
  by (simp add: empty_object_corrector_def sample_sentences_def createCorrectionPrompt_def)

theorem correctTextStream_record_witness:
  "0 < (2::nat) \<and> all_settle 2 sample_sched (length sample_sentences) \<and>
   responses_readable sample_corrector sample_sentences \<and>
   (\<exists>records.
      correctTextStream 2 sample_sched sample_corrector sample_sentences = Some (Completed records) \<and>
      length records = 3 \<and>
      errors (records ! 0) = [str ''typo''] \<and> correctedSentence (records ! 0) = str ''abc'' \<and>
      errors (records ! 1) = [] \<and> correctedSentence (records ! 1) = str ''cd'' \<and>
      errors (records ! 2) = [] \<and> correctedSentence (records ! 2) = str ''ef'')"
proof -
  have h1: "0 < (2::nat)"
    by simp
  note h2 = all_settle_sample and h3 = sample_readable
  note inst = correctTextStream_record [OF h1, of sample_sched sample_corrector sample_sentences]
  have len: "length sample_sentences = 3"
    by (simp add: sample_sentences_def)
  from inst have "all_settle 2 sample_sched (length sample_sentences) \<and>
      responses_readable sample_corrector sample_sentences \<longrightarrow>
      (\<exists>records.
         correctTextStream 2 sample_sched sample_corrector sample_sentences
           = Some (Completed records) \<and>
         length records = length sample_sentences)"
    by (rule conjunct2)
  with h2 h3 obtain records where r:
      "correctTextStream 2 sample_sched sample_corrector sample_sentences = Some (Completed records)"
      "length records = length sample_sentences"
    by blast
  note yielded_record = inst [THEN conjunct1, rule_format, of "Completed records"]
  have each: "case response_of sample_corrector sample_sentences i of
       WellTyped response \<Rightarrow>
         (let changed = (error response \<noteq> [] \<and>
                response_correctedSentence response \<noteq> stext (sample_sentences ! i));
              r = yielded (Completed records) ! i
          in originalSentence r = stext (sample_sentences ! i) \<and>
             (errors r \<noteq> [] \<longleftrightarrow> changed) \<and>
             (changed \<longrightarrow> errors r = error response \<and>
                correctedSentence r = response_correctedSentence response) \<and>
             (\<not> changed \<longrightarrow> errors r = [] \<and>
                correctedSentence r = originalSentence r) \<and>
             (errors r = [] \<longrightarrow> correctedSentence r = originalSentence r))
     | NoLength \<Rightarrow>
         originalSentence (yielded (Completed records) ! i) = stext (sample_sentences ! i) \<and>
         errors (yielded (Completed records) ! i) = [] \<and>
         correctedSentence (yielded (Completed records) ! i) =
           originalSentence (yielded (Completed records) ! i)
     | NoError \<Rightarrow> False" if "i < 3" for i
  proof -
    from that r(2) len have "i < length (yielded (Completed records))"
      by simp
    with r(1) have "correctTextStream 2 sample_sched sample_corrector sample_sentences
        = Some (Completed records) \<and> i < length (yielded (Completed records))"
      by (rule conjI)
    from yielded_record [OF this] show ?thesis
      by (rule conjunct2)
  qed
  from each [of 0, unfolded sample_responses]
  have "errors (records ! 0) = [str ''typo''] \<and> correctedSentence (records ! 0) = str ''abc''"
    by (simp add: Let_def sample_sentences_def str_def)
  moreover from each [of 1, unfolded sample_responses]
  have "errors (records ! 1) = [] \<and> correctedSentence (records ! 1) = str ''cd''"
    by (simp add: Let_def sample_sentences_def)
  moreover from each [of 2, unfolded sample_responses]
  have "errors (records ! 2) = [] \<and> correctedSentence (records ! 2) = str ''ef''"
    by (simp add: Let_def sample_sentences_def)
  ultimately show ?thesis
    using h1 h2 h3 r len by auto
qed



end
